theory Spec2Isabelle
  imports Main "HOL-Library.Sublist" "HOL-Library.Char_ord" "HOL-Library.List_Lexorder"
begin

section \<open>The configuration tree\<close>

text \<open>
  \<^verbatim>\<open>generate_user_data\<close> of \<^verbatim>\<open>senza/components/taupage_auto_scaling_group.py\<close> works on
  the Python value that the Taupage configuration was loaded into: dictionaries, lists and
  scalars. A dictionary keeps its insertion order, so it is an association list here; its
  keys are strings (the ConfigNode of the specification) and are pairwise distinct in
  every dictionary Python can build (\<open>wf_node\<close>). Numbers are Python's unbounded
  integers; floating point numbers are left out of the model. A string is a list of
  characters, each of them a code point below 256.
\<close>

datatype node =
    PyDict "(string \<times> node) list"
  | PyList "node list"
  | PyStr string
  | PyInt int
  | PyBool bool
  | PyNone

primrec wf_node :: "node \<Rightarrow> bool"
  and wf_items :: "(string \<times> node) list \<Rightarrow> bool"
  and wf_item :: "string \<times> node \<Rightarrow> bool"
  and wf_list :: "node list \<Rightarrow> bool"
where
  "wf_node (PyDict kvs) = (distinct (map fst kvs) \<and> wf_items kvs)"
| "wf_node (PyList xs) = wf_list xs"
| "wf_node (PyStr s) = True"
| "wf_node (PyInt i) = True"
| "wf_node (PyBool b) = True"
| "wf_node PyNone = True"
| "wf_items [] = True"
| "wf_items (kv # kvs) = (wf_item kv \<and> wf_items kvs)"
| "wf_item (k, v) = wf_node v"
| "wf_list [] = True"
| "wf_list (x # xs) = (wf_node x \<and> wf_list xs)"

text \<open>
  An exception is a value: the one \<^verbatim>\<open>resolve_referenced_resource\<close> raises, or the
  \<^verbatim>\<open>JSONDecodeError\<close> of \<^verbatim>\<open>json.loads\<close>, with its message (without the position, and
  without the quotes and backslashes it has in Python). \<open>OutsideModel\<close> is no
  exception of Python: the model of \<^verbatim>\<open>json.loads\<close> below answers with it where Python
  returns a value that \<open>node\<close> leaves out (a float, or a string with a code point above
  255), and the model of \<^verbatim>\<open>yaml.dump\<close> where the tree is outside the part of the
  serializer that is modelled.
\<close>

datatype error = ResolveError string | JSONDecodeError string | OutsideModel

section \<open>The collaborators\<close>

text \<open>
  Four functions that \<^verbatim>\<open>generate_user_data\<close> calls live outside the file:
  \<^verbatim>\<open>senza.aws.resolve_referenced_resource\<close>, \<^verbatim>\<open>json.dumps\<close>, \<^verbatim>\<open>json.loads\<close> and
  \<^verbatim>\<open>yaml.dump\<close> (called with \<^verbatim>\<open>width=sys.maxsize, default_flow_style=False\<close>). The
  functions of the file take them as a record, so that a theorem stated for every
  \<open>L\<close> holds whatever these four do.
\<close>

record libs =
  resolve_referenced_resource :: "node \<Rightarrow> string \<Rightarrow> error + node"
  json_dumps :: "node \<Rightarrow> string"
  json_loads :: "string \<Rightarrow> error + node"
  yaml_dump :: "node \<Rightarrow> error + string"

section \<open>The tree transformer\<close>

text \<open>
  \<^verbatim>\<open>name == "Ref" or (isinstance(name, str) and name.startswith("Fn::"))\<close>
\<close>

definition is_aws_fn :: "string \<Rightarrow> bool" where
  "is_aws_fn name \<longleftrightarrow> name = ''Ref'' \<or> prefix ''Fn::'' name"

text \<open>
  \<^verbatim>\<open>transform\<close>, with the dictionary and list comprehensions as the recursions
  \<open>transform_items\<close> and \<open>transform_list\<close>: they go from left to right and stop at the
  first exception.
\<close>

primrec transform :: "libs \<Rightarrow> string \<Rightarrow> node \<Rightarrow> error + node"
  and transform_items ::
    "libs \<Rightarrow> string \<Rightarrow> (string \<times> node) list \<Rightarrow> error + (string \<times> node) list"
  and transform_item :: "libs \<Rightarrow> string \<Rightarrow> string \<times> node \<Rightarrow> error + (string \<times> node)"
  and transform_list :: "libs \<Rightarrow> string \<Rightarrow> node list \<Rightarrow> error + node list"
where
  "transform L region (PyDict kvs) =
     (if ''Stack'' \<in> set (map fst kvs) \<and> ''Output'' \<in> set (map fst kvs)
      then resolve_referenced_resource L (PyDict kvs) region
      else if length kvs > 0
      then (if length kvs = 1 \<and> is_aws_fn (fst (hd kvs))
            then Inr (PyStr (''{{ '' @ json_dumps L (PyDict kvs) @ '' }}''))
            else (case transform_items L region kvs of
                    Inl e \<Rightarrow> Inl e
                  | Inr kvs' \<Rightarrow> Inr (PyDict kvs')))
      else Inr (PyDict kvs))"
| "transform L region (PyList xs) =
     (case transform_list L region xs of Inl e \<Rightarrow> Inl e | Inr ys \<Rightarrow> Inr (PyList ys))"
| "transform L region (PyStr s) = Inr (PyStr s)"
| "transform L region (PyInt i) = Inr (PyInt i)"
| "transform L region (PyBool b) = Inr (PyBool b)"
| "transform L region PyNone = Inr PyNone"
| "transform_items L region [] = Inr []"
| "transform_items L region (kv # kvs) =
     (case transform_item L region kv of
        Inl e \<Rightarrow> Inl e
      | Inr kv' \<Rightarrow> (case transform_items L region kvs of
                      Inl e \<Rightarrow> Inl e
                    | Inr kvs' \<Rightarrow> Inr (kv' # kvs')))"
| "transform_item L region (k, v) =
     (case transform L region v of Inl e \<Rightarrow> Inl e | Inr v' \<Rightarrow> Inr (k, v'))"
| "transform_list L region [] = Inr []"
| "transform_list L region (x # xs) =
     (case transform L region x of
        Inl e \<Rightarrow> Inl e
      | Inr y \<Rightarrow> (case transform_list L region xs of
                     Inl e \<Rightarrow> Inl e
                   | Inr ys \<Rightarrow> Inr (y # ys)))"

section \<open>The placeholder splitter\<close>

text \<open>
  \<^verbatim>\<open>_AWS_FN_RE = re.compile(r"('[{]{2} (.*?) [}]{2}')", re.DOTALL)\<close>: a quote, two
  opening braces and a space; then as few characters as possible, of any kind; then a
  space, two closing braces and a quote.
\<close>

definition fn_open :: string where
  "fn_open = [CHR 0x27, CHR ''{'', CHR ''{'', CHR '' '']"

definition fn_close :: string where
  "fn_close = [CHR '' '', CHR ''}'', CHR ''}'', CHR 0x27]"

text \<open>
  \<open>find_close s\<close> is the lazy \<^verbatim>\<open>(.*?)\<close> followed by the closing marker: the text before
  the first closing marker of \<open>s\<close> (group 2) and the text after it.
\<close>

fun find_close :: "string \<Rightarrow> (string \<times> string) option" where
  "find_close [] = None"
| "find_close (c # cs) =
     (if prefix fn_close (c # cs) then Some ([], drop 4 (c # cs))
      else map_option (\<lambda>(body, rest). (c # body, rest)) (find_close cs))"

text \<open>
  \<open>re_search s\<close> is the leftmost match of the pattern in \<open>s\<close>: the text before the match,
  group 2, and the text after the match. A start position whose opening marker is
  followed by no closing marker is given up for the next one, as the regular expression
  engine does.
\<close>

fun re_search :: "string \<Rightarrow> (string \<times> string \<times> string) option" where
  "re_search [] = None"
| "re_search (c # cs) =
     (case (if prefix fn_open (c # cs) then find_close (drop 4 (c # cs)) else None) of
        Some (body, rest) \<Rightarrow> Some ([], body, rest)
      | None \<Rightarrow> map_option (\<lambda>(pre, body, rest). (c # pre, body, rest)) (re_search cs))"

lemma find_close_length:
  "find_close s = Some (body, rest) \<Longrightarrow> length body + 4 + length rest = length s"
proof (induction s arbitrary: body)
  case Nil
  then show ?case by simp
next
  case (Cons c cs)
  show ?case
  proof (cases "prefix fn_close (c # cs)")
    case True
    then have "4 \<le> length (c # cs)"
      using prefix_length_le [of fn_close "c # cs"] by (simp add: fn_close_def)
    with True Cons.prems show ?thesis by auto
  next
    case False
    with Cons.prems obtain b where "find_close cs = Some (b, rest)" "body = c # b"
      by auto
    with Cons.IH [of b] show ?thesis by simp
  qed
qed

lemma re_search_length:
  "re_search s = Some (pre, body, rest) \<Longrightarrow> length pre + 8 + length body + length rest = length s"
proof (induction s arbitrary: pre)
  case Nil
  then show ?case by simp
next
  case (Cons c cs)
  show ?case
  proof (cases "if prefix fn_open (c # cs) then find_close (drop 4 (c # cs)) else None")
    case (Some br)
    then have p: "prefix fn_open (c # cs)" and f: "find_close (drop 4 (c # cs)) = Some br"
      by (auto split: if_splits)
    from Some Cons.prems have br: "br = (body, rest)" and pre: "pre = []"
      by (auto split: prod.splits)
    from p have "4 \<le> length (c # cs)"
      using prefix_length_le [of fn_open "c # cs"] by (simp add: fn_open_def)
    moreover from f br have "length body + 4 + length rest = length (drop 4 (c # cs))"
      using find_close_length by blast
    ultimately show ?thesis using pre by simp
  next
    case None
    with Cons.prems obtain p where "re_search cs = Some (p, body, rest)" "pre = c # p"
      by auto
    with Cons.IH [of p] show ?thesis by simp
  qed
qed

text \<open>
  \<^verbatim>\<open>_AWS_FN_RE.finditer(text)\<close>: the matches from left to right, none overlapping
  another, each search starting where the match before ended. A match is kept as the
  pair of \<^verbatim>\<open>text[last_pos:m.start(1)]\<close> and \<^verbatim>\<open>m.group(2)\<close>; the second component of
  the result is \<^verbatim>\<open>text[last_pos:]\<close> after the last match.
\<close>

function finditer :: "string \<Rightarrow> (string \<times> string) list \<times> string" where
  "finditer text =
     (case re_search text of
        None \<Rightarrow> ([], text)
      | Some (pre, body, rest) \<Rightarrow>
          (case finditer rest of (ms, tail) \<Rightarrow> ((pre, body) # ms, tail)))"
  by pat_completeness auto
termination
proof (relation "measure length")
  show "wf (measure length)" by simp
next
  fix s :: string and x2 pre y body rest
  assume "re_search s = Some x2" "(pre, y) = x2" "(body, rest) = y"
  then have "re_search s = Some (pre, body, rest)" by simp
  from re_search_length [OF this] show "(rest, s) \<in> measure length" by simp
qed

declare finditer.simps [simp del]

text \<open>
  The loop of \<^verbatim>\<open>split\<close>: for each match, the literal text before it and the decoded
  group 2; the first \<^verbatim>\<open>json.loads\<close> that raises ends the loop.
\<close>

fun split_loop :: "libs \<Rightarrow> (string \<times> string) list \<Rightarrow> error + node list" where
  "split_loop L [] = Inr []"
| "split_loop L ((lit, body) # ms) =
     (case json_loads L body of
        Inl e \<Rightarrow> Inl e
      | Inr v \<Rightarrow> (case split_loop L ms of
                     Inl e \<Rightarrow> Inl e
                   | Inr parts \<Rightarrow> Inr (PyStr lit # v # parts)))"

definition split :: "libs \<Rightarrow> string \<Rightarrow> error + node list" where
  "split L text =
     (case finditer text of
        (ms, tail) \<Rightarrow>
          (case split_loop L ms of
             Inl e \<Rightarrow> Inl e
           | Inr parts \<Rightarrow> Inr (parts @ [PyStr tail])))"

section \<open>The pipeline\<close>

definition header :: string where
  "header = ''#taupage-ami-config'' @ [CHR 0x0A]"

text \<open>
  The last four lines of \<^verbatim>\<open>generate_user_data\<close>:
  \<^verbatim>\<open>parts[0] if len(parts) == 1 else {"Fn::Join": ["", parts]}\<close>.
\<close>

definition join_parts :: "node list \<Rightarrow> node" where
  "join_parts parts =
     (if length parts = 1 then hd parts
      else PyDict [(''Fn::Join'', PyList [PyStr [], PyList parts])])"

definition generate_user_data :: "libs \<Rightarrow> string \<Rightarrow> node \<Rightarrow> error + node" where
  "generate_user_data L region taupage_config =
     (case transform L region taupage_config of
        Inl e \<Rightarrow> Inl e
      | Inr t \<Rightarrow>
          (case yaml_dump L t of
             Inl e \<Rightarrow> Inl e
           | Inr yaml_text \<Rightarrow>
               (case split L (header @ yaml_text) of
                  Inl e \<Rightarrow> Inl e
                | Inr parts \<Rightarrow> Inr (join_parts parts))))"

section \<open>The JSON encoder and decoder of the Python standard library\<close>

text \<open>
  \<^verbatim>\<open>json.dumps(node)\<close> with its default arguments: \<^verbatim>\<open>ensure_ascii=True\<close>, the separators
  \<^verbatim>\<open>", "\<close> and \<^verbatim>\<open>": "\<close>, the keys in the order of the dictionary. The limit on the
  number of digits of an integer conversion (4300 by default) is not modelled.
\<close>

definition dq :: char where
  "dq = CHR 0x22"

definition bs :: char where
  "bs = CHR 0x5C"

definition hex_digit :: "nat \<Rightarrow> char" where
  "hex_digit n = ''0123456789abcdef'' ! n"

text \<open>
  \<^verbatim>\<open>ESCAPE_ASCII = ([\\"]|[^\ -~])\<close> with \<^verbatim>\<open>ESCAPE_DCT\<close>: a backslash, a double quote and
  every character outside the range from the space to the tilde is escaped.
\<close>

definition escape_ascii :: "char \<Rightarrow> string" where
  "escape_ascii c =
     (if c = bs then [bs, bs]
      else if c = dq then [bs, dq]
      else if c = CHR 0x08 then [bs, CHR ''b'']
      else if c = CHR 0x0C then [bs, CHR ''f'']
      else if c = CHR 0x0A then [bs, CHR ''n'']
      else if c = CHR 0x0D then [bs, CHR ''r'']
      else if c = CHR 0x09 then [bs, CHR ''t'']
      else if 0x20 \<le> (of_char c :: nat) \<and> (of_char c :: nat) \<le> 0x7E then [c]
      else [bs, CHR ''u'', CHR ''0'', CHR ''0'',
            hex_digit (of_char c div 16), hex_digit (of_char c mod 16)])"

definition encode_basestring_ascii :: "string \<Rightarrow> string" where
  "encode_basestring_ascii s = dq # concat (map escape_ascii s) @ [dq]"

definition digit_char :: "nat \<Rightarrow> char" where
  "digit_char n = char_of (48 + n)"

fun str_of_nat :: "nat \<Rightarrow> string" where
  "str_of_nat n =
     (if n < 10 then [digit_char n] else str_of_nat (n div 10) @ [digit_char (n mod 10)])"

declare str_of_nat.simps [simp del]

text \<open>\<^verbatim>\<open>int.__repr__\<close>\<close>

definition str_of_int :: "int \<Rightarrow> string" where
  "str_of_int i = (if i < 0 then CHR ''-'' # str_of_nat (nat (- i)) else str_of_nat (nat i))"

primrec py_json_dumps :: "node \<Rightarrow> string"
  and dumps_items :: "(string \<times> node) list \<Rightarrow> string"
  and dumps_item :: "string \<times> node \<Rightarrow> string"
  and dumps_list :: "node list \<Rightarrow> string"
where
  "py_json_dumps (PyDict kvs) = ''{'' @ dumps_items kvs @ ''}''"
| "py_json_dumps (PyList xs) = ''['' @ dumps_list xs @ '']''"
| "py_json_dumps (PyStr s) = encode_basestring_ascii s"
| "py_json_dumps (PyInt i) = str_of_int i"
| "py_json_dumps (PyBool b) = (if b then ''true'' else ''false'')"
| "py_json_dumps PyNone = ''null''"
| "dumps_items [] = []"
| "dumps_items (kv # kvs) =
     dumps_item kv @ (if kvs = [] then [] else '', '' @ dumps_items kvs)"
| "dumps_item (k, v) = encode_basestring_ascii k @ '': '' @ py_json_dumps v"
| "dumps_list [] = []"
| "dumps_list (x # xs) =
     py_json_dumps x @ (if xs = [] then [] else '', '' @ dumps_list xs)"

text \<open>
  \<^verbatim>\<open>json.loads(s)\<close> with its default arguments, after \<^verbatim>\<open>json/decoder.py\<close> and
  \<^verbatim>\<open>json/scanner.py\<close>. Every function returns the decoded value and the text that
  follows it; \<^verbatim>\<open>StopIteration\<close>, which every caller of \<^verbatim>\<open>scan_once\<close> turns into
  \<^verbatim>\<open>JSONDecodeError("Expecting value")\<close>, is that error from the start.
\<close>

definition is_ws :: "char \<Rightarrow> bool" where
  "is_ws c \<longleftrightarrow> c = CHR '' '' \<or> c = CHR 0x09 \<or> c = CHR 0x0A \<or> c = CHR 0x0D"

definition skip_ws :: "string \<Rightarrow> string" where
  "skip_ws s = dropWhile is_ws s"

definition is_digit :: "char \<Rightarrow> bool" where
  "is_digit c \<longleftrightarrow> 48 \<le> (of_char c :: nat) \<and> (of_char c :: nat) \<le> 57"

definition nat_of_digits :: "string \<Rightarrow> nat" where
  "nat_of_digits ds = foldl (\<lambda>a c. 10 * a + (of_char c - 48)) 0 ds"

definition hex_val :: "char \<Rightarrow> nat option" where
  "hex_val c =
     (let n = (of_char c :: nat) in
      if 48 \<le> n \<and> n \<le> 57 then Some (n - 48)
      else if 97 \<le> n \<and> n \<le> 102 then Some (n - 87)
      else if 65 \<le> n \<and> n \<le> 70 then Some (n - 55)
      else None)"

text \<open>
  \<^verbatim>\<open>_decode_uXXXX\<close>, as the C scanner has it: exactly four hexadecimal digits.
\<close>

definition decode_uXXXX :: "string \<Rightarrow> nat option" where
  "decode_uXXXX s =
     (case map hex_val (take 4 s) of
        [Some a, Some b, Some c, Some d] \<Rightarrow> Some (((a * 16 + b) * 16 + c) * 16 + d)
      | _ \<Rightarrow> None)"

text \<open>\<^verbatim>\<open>BACKSLASH\<close>\<close>

definition backslash :: "char \<Rightarrow> char option" where
  "backslash e =
     (if e = dq then Some dq
      else if e = bs then Some bs
      else if e = CHR ''/'' then Some CHR ''/''
      else if e = CHR ''b'' then Some (CHR 0x08)
      else if e = CHR ''f'' then Some (CHR 0x0C)
      else if e = CHR ''n'' then Some (CHR 0x0A)
      else if e = CHR ''r'' then Some (CHR 0x0D)
      else if e = CHR ''t'' then Some (CHR 0x09)
      else None)"

text \<open>
  \<^verbatim>\<open>scanstring(s, end, strict=True)\<close>, from the character after the opening quote. A
  \<^verbatim>\<open>\uXXXX\<close> escape of a code point above 255 (so every surrogate) is outside the model.
\<close>

fun scanstring :: "string \<Rightarrow> error + string \<times> string" where
  "scanstring [] = Inl (JSONDecodeError ''Unterminated string starting at'')"
| "scanstring (c # cs) =
     (if c = dq then Inr ([], cs)
      else if c = bs then
        (case cs of
           [] \<Rightarrow> Inl (JSONDecodeError ''Unterminated string starting at'')
         | e # r \<Rightarrow>
             if e = CHR ''u'' then
               (case decode_uXXXX r of
                  None \<Rightarrow> Inl (JSONDecodeError ''Invalid uXXXX escape'')
                | Some n \<Rightarrow>
                    if n < 256 then
                      (case scanstring (drop 4 r) of
                         Inl err \<Rightarrow> Inl err
                       | Inr (str, rest) \<Rightarrow> Inr (char_of n # str, rest))
                    else Inl OutsideModel)
             else
               (case backslash e of
                  None \<Rightarrow> Inl (JSONDecodeError ''Invalid escape'')
                | Some ch \<Rightarrow>
                    (case scanstring r of
                       Inl err \<Rightarrow> Inl err
                     | Inr (str, rest) \<Rightarrow> Inr (ch # str, rest))))
      else if (of_char c :: nat) < 0x20 then
        Inl (JSONDecodeError ''Invalid control character at'')
      else
        (case scanstring cs of
           Inl err \<Rightarrow> Inl err
         | Inr (str, rest) \<Rightarrow> Inr (c # str, rest)))"

text \<open>
  \<^verbatim>\<open>NUMBER_RE = (-?(?:0|[1-9]\d*))(\.\d+)?([eE][-+]?\d+)?\<close>. \<open>match_integer\<close> is group 1
  and the text after it; \<open>has_frac_or_exp\<close> says whether group 2 or group 3 matches
  there, which makes the number a float.
\<close>

definition match_integer :: "string \<Rightarrow> (string \<times> string) option" where
  "match_integer s =
     (let (sign, s1) = (if s \<noteq> [] \<and> hd s = CHR ''-'' then (''-'', tl s) else ([], s)) in
      case s1 of
        [] \<Rightarrow> None
      | d # r \<Rightarrow>
          if d = CHR ''0'' then Some (sign @ [d], r)
          else if is_digit d then Some (sign @ d # takeWhile is_digit r, dropWhile is_digit r)
          else None)"

definition has_exp :: "string \<Rightarrow> bool" where
  "has_exp s =
     (case s of
        e # r \<Rightarrow>
          (e = CHR ''e'' \<or> e = CHR ''E'') \<and>
          (case r of
             [] \<Rightarrow> False
           | g # r' \<Rightarrow>
               if g = CHR ''-'' \<or> g = CHR ''+'' then r' \<noteq> [] \<and> is_digit (hd r')
               else is_digit g)
      | [] \<Rightarrow> False)"

definition has_frac_or_exp :: "string \<Rightarrow> bool" where
  "has_frac_or_exp s =
     (case s of
        p # d # r \<Rightarrow> (p = CHR ''.'' \<and> is_digit d) \<or> has_exp s
      | _ \<Rightarrow> has_exp s)"

text \<open>\<^verbatim>\<open>int(integer)\<close> for a text that group 1 matched\<close>

definition int_of_str :: "string \<Rightarrow> int" where
  "int_of_str s =
     (if s \<noteq> [] \<and> hd s = CHR ''-'' then - int (nat_of_digits (tl s)) else int (nat_of_digits s))"

text \<open>
  \<^verbatim>\<open>dict(pairs)\<close>: a key that comes again keeps its place and takes the later value.
\<close>

fun dict_update :: "string \<Rightarrow> node \<Rightarrow> (string \<times> node) list \<Rightarrow> (string \<times> node) list" where
  "dict_update k v [] = [(k, v)]"
| "dict_update k v (p # ps) = (if fst p = k then (k, v) # ps else p # dict_update k v ps)"

definition dict_of_pairs :: "(string \<times> node) list \<Rightarrow> (string \<times> node) list" where
  "dict_of_pairs pairs = foldl (\<lambda>d (k, v). dict_update k v d) [] pairs"

text \<open>
  \<^verbatim>\<open>_scan_once\<close>, and the loops of \<^verbatim>\<open>JSONObject\<close> and \<^verbatim>\<open>JSONArray\<close>. The recursion of
  the three is on the text that is left, which is shorter at every call; the first
  argument is a bound on that length that makes the recursion structural, and \<open>None\<close>
  says that the bound was too small (\<open>scan_once_fuel\<close>: it never is).
  \<open>parse_object\<close> starts after the opening quote of a key, \<open>parse_array\<close> at the start
  of a value.
\<close>

fun scan_once :: "nat \<Rightarrow> string \<Rightarrow> (error + node \<times> string) option"
  and parse_object ::
    "nat \<Rightarrow> string \<Rightarrow> (string \<times> node) list \<Rightarrow> (error + node \<times> string) option"
  and parse_array :: "nat \<Rightarrow> string \<Rightarrow> node list \<Rightarrow> (error + node \<times> string) option"
where
  "scan_once 0 s = None"
| "scan_once (Suc n) [] = Some (Inl (JSONDecodeError ''Expecting value''))"
| "scan_once (Suc n) (c # cs) =
     (if c = dq then
        Some (case scanstring cs of
                Inl e \<Rightarrow> Inl e
              | Inr (str, rest) \<Rightarrow> Inr (PyStr str, rest))
      else if c = CHR ''{'' then
        (case skip_ws cs of
           [] \<Rightarrow> Some (Inl (JSONDecodeError ''Expecting property name enclosed in double quotes''))
         | c' # r \<Rightarrow>
             if c' = CHR ''}'' then Some (Inr (PyDict [], r))
             else if c' = dq then parse_object n r []
             else Some (Inl (JSONDecodeError ''Expecting property name enclosed in double quotes'')))
      else if c = CHR ''['' then
        (case skip_ws cs of
           [] \<Rightarrow> Some (Inl (JSONDecodeError ''Expecting value''))
         | c' # r \<Rightarrow>
             if c' = CHR '']'' then Some (Inr (PyList [], r))
             else parse_array n (c' # r) [])
      else if c = CHR ''n'' \<and> take 4 (c # cs) = ''null'' then Some (Inr (PyNone, drop 4 (c # cs)))
      else if c = CHR ''t'' \<and> take 4 (c # cs) = ''true'' then
        Some (Inr (PyBool True, drop 4 (c # cs)))
      else if c = CHR ''f'' \<and> take 5 (c # cs) = ''false'' then
        Some (Inr (PyBool False, drop 5 (c # cs)))
      else
        (case match_integer (c # cs) of
           Some (integer, rest) \<Rightarrow>
             if has_frac_or_exp rest then Some (Inl OutsideModel)
             else Some (Inr (PyInt (int_of_str integer), rest))
         | None \<Rightarrow>
             if c = CHR ''N'' \<and> take 3 (c # cs) = ''NaN'' then Some (Inl OutsideModel)
             else if c = CHR ''I'' \<and> take 8 (c # cs) = ''Infinity'' then Some (Inl OutsideModel)
             else if c = CHR ''-'' \<and> take 9 (c # cs) = ''-Infinity'' then Some (Inl OutsideModel)
             else Some (Inl (JSONDecodeError ''Expecting value''))))"
| "parse_object 0 s pairs = None"
| "parse_object (Suc n) s pairs =
     (case scanstring s of
        Inl e \<Rightarrow> Some (Inl e)
      | Inr (key, r1) \<Rightarrow>
          (case skip_ws r1 of
             [] \<Rightarrow> Some (Inl (JSONDecodeError ''Expecting : delimiter''))
           | c1 # r2 \<Rightarrow>
               if c1 \<noteq> CHR '':'' then Some (Inl (JSONDecodeError ''Expecting : delimiter''))
               else
                 (case scan_once n (skip_ws r2) of
                    None \<Rightarrow> None
                  | Some (Inl e) \<Rightarrow> Some (Inl e)
                  | Some (Inr (v, r3)) \<Rightarrow>
                      (case skip_ws r3 of
                         [] \<Rightarrow> Some (Inl (JSONDecodeError ''Expecting , delimiter''))
                       | c2 # r4 \<Rightarrow>
                           if c2 = CHR ''}'' then
                             Some (Inr (PyDict (dict_of_pairs (pairs @ [(key, v)])), r4))
                           else if c2 \<noteq> CHR '','' then
                             Some (Inl (JSONDecodeError ''Expecting , delimiter''))
                           else
                             (case skip_ws r4 of
                                [] \<Rightarrow>
                                  Some (Inl (JSONDecodeError
                                    ''Expecting property name enclosed in double quotes''))
                              | c3 # r5 \<Rightarrow>
                                  if c3 = dq then parse_object n r5 (pairs @ [(key, v)])
                                  else
                                    Some (Inl (JSONDecodeError
                                      ''Expecting property name enclosed in double quotes'')))))))"
| "parse_array 0 s vals = None"
| "parse_array (Suc n) s vals =
     (case scan_once (Suc n) s of
        None \<Rightarrow> None
      | Some (Inl e) \<Rightarrow> Some (Inl e)
      | Some (Inr (v, r1)) \<Rightarrow>
          (case skip_ws r1 of
             [] \<Rightarrow> Some (Inl (JSONDecodeError ''Expecting , delimiter''))
           | c # r2 \<Rightarrow>
               if c = CHR '']'' then Some (Inr (PyList (vals @ [v]), r2))
               else if c \<noteq> CHR '','' then Some (Inl (JSONDecodeError ''Expecting , delimiter''))
               else parse_array n (skip_ws r2) (vals @ [v])))"

text \<open>
  \<^verbatim>\<open>JSONDecoder.decode\<close>: white space, one value, white space, the end of the text.
\<close>

definition decode :: "string \<Rightarrow> (error + node) option" where
  "decode s =
     (case scan_once (Suc (length s)) (skip_ws s) of
        None \<Rightarrow> None
      | Some (Inl e) \<Rightarrow> Some (Inl e)
      | Some (Inr (v, rest)) \<Rightarrow>
          if skip_ws rest = [] then Some (Inr v) else Some (Inl (JSONDecodeError ''Extra data'')))"

definition py_json_loads :: "string \<Rightarrow> error + node" where
  "py_json_loads s = (case decode s of Some r \<Rightarrow> r | None \<Rightarrow> Inl OutsideModel)"

section \<open>The YAML serializer\<close>

text \<open>
  \<^verbatim>\<open>yaml.dump(node, width=sys.maxsize, default_flow_style=False)\<close> of PyYAML, for the
  trees of \<open>yaml_modelled\<close>: every string has only characters from the space to the tilde
  (so no line break, no tab, nothing that PyYAML escapes in double quotes), and every key
  is not empty and shorter than 123 characters (a key that PyYAML writes as a simple key).
  On these trees PyYAML writes block collections, the keys of a dictionary in sorted
  order, and every scalar either plain or in single quotes, on one line. The model takes
  the tree to have no dictionary or list object in two places (PyYAML writes such an
  object once, with an anchor, and an alias afterwards).
\<close>

subsection \<open>The implicit resolvers\<close>

text \<open>
  Regular expressions, matched by derivatives: \<open>fullmatch r s\<close> says whether \<open>r\<close> matches
  the whole of \<open>s\<close>. \<open>Chars cs\<close> is one character of \<open>cs\<close>, \<open>Str s\<close> the text \<open>s\<close>.
\<close>

datatype rexp =
    Fail
  | Eps
  | Chars string
  | Str string
  | Seq rexp rexp
  | Alt rexp rexp
  | Star rexp

definition Opt :: "rexp \<Rightarrow> rexp" where
  "Opt r = Alt Eps r"

definition Plus :: "rexp \<Rightarrow> rexp" where
  "Plus r = Seq r (Star r)"

primrec nullable :: "rexp \<Rightarrow> bool" where
  "nullable Fail = False"
| "nullable Eps = True"
| "nullable (Chars cs) = False"
| "nullable (Str s) = (s = [])"
| "nullable (Seq r s) = (nullable r \<and> nullable s)"
| "nullable (Alt r s) = (nullable r \<or> nullable s)"
| "nullable (Star r) = True"

primrec deriv :: "char \<Rightarrow> rexp \<Rightarrow> rexp" where
  "deriv c Fail = Fail"
| "deriv c Eps = Fail"
| "deriv c (Chars cs) = (if c \<in> set cs then Eps else Fail)"
| "deriv c (Str s) = (case s of [] \<Rightarrow> Fail | x # xs \<Rightarrow> if c = x then Str xs else Fail)"
| "deriv c (Seq r s) =
     (if nullable r then Alt (Seq (deriv c r) s) (deriv c s) else Seq (deriv c r) s)"
| "deriv c (Alt r s) = Alt (deriv c r) (deriv c s)"
| "deriv c (Star r) = Seq (deriv c r) (Star r)"

definition fullmatch :: "rexp \<Rightarrow> string \<Rightarrow> bool" where
  "fullmatch r s = nullable (foldl (\<lambda>r c. deriv c r) r s)"

fun seqs :: "rexp list \<Rightarrow> rexp" where
  "seqs [] = Eps"
| "seqs [r] = r"
| "seqs (r # rs) = Seq r (seqs rs)"

fun alts :: "rexp list \<Rightarrow> rexp" where
  "alts [] = Fail"
| "alts [r] = r"
| "alts (r # rs) = Alt r (alts rs)"

definition re_digit :: rexp where
  "re_digit = Chars ''0123456789''"

definition re_digit_us :: rexp where
  "re_digit_us = Chars ''0123456789_''"

definition re_sign :: rexp where
  "re_sign = Opt (Chars ''-+'')"

text \<open>\<^verbatim>\<open>(?:[eE][-+][0-9]+)?\<close>\<close>

definition re_exponent :: rexp where
  "re_exponent = Opt (seqs [Chars ''eE'', Chars ''-+'', Plus re_digit])"

text \<open>\<^verbatim>\<open>(?::[0-5]?[0-9])+\<close>\<close>

definition re_sexagesimal :: rexp where
  "re_sexagesimal = Plus (seqs [Str '':'', Opt (Chars ''012345''), re_digit])"

text \<open>
  \<^verbatim>\<open>[-+]?(?:[0-9][0-9_]*)\.[0-9_]*(?:[eE][-+][0-9]+)?\<close>,
  \<^verbatim>\<open>\.[0-9][0-9_]*(?:[eE][-+][0-9]+)?\<close>,
  \<^verbatim>\<open>[-+]?[0-9][0-9_]*(?::[0-5]?[0-9])+\.[0-9_]*\<close>,
  \<^verbatim>\<open>[-+]?\.(?:inf|Inf|INF)\<close> and \<^verbatim>\<open>\.(?:nan|NaN|NAN)\<close>
\<close>

definition float_re :: rexp where
  "float_re = alts
     [seqs [re_sign, re_digit, Star re_digit_us, Str ''.'', Star re_digit_us, re_exponent],
      seqs [Str ''.'', re_digit, Star re_digit_us, re_exponent],
      seqs [re_sign, re_digit, Star re_digit_us, re_sexagesimal, Str ''.'', Star re_digit_us],
      seqs [re_sign, Str ''.'', alts [Str ''inf'', Str ''Inf'', Str ''INF'']],
      seqs [Str ''.'', alts [Str ''nan'', Str ''NaN'', Str ''NAN'']]]"

text \<open>
  \<^verbatim>\<open>[-+]?0b[0-1_]+\<close>, \<^verbatim>\<open>[-+]?0[0-7_]+\<close>, \<^verbatim>\<open>[-+]?(?:0|[1-9][0-9_]*)\<close>,
  \<^verbatim>\<open>[-+]?0x[0-9a-fA-F_]+\<close> and \<^verbatim>\<open>[-+]?[1-9][0-9_]*(?::[0-5]?[0-9])+\<close>
\<close>

definition int_re :: rexp where
  "int_re = alts
     [seqs [re_sign, Str ''0b'', Plus (Chars ''01_'')],
      seqs [re_sign, Str ''0'', Plus (Chars ''01234567_'')],
      seqs [re_sign, alts [Str ''0'', seqs [Chars ''123456789'', Star re_digit_us]]],
      seqs [re_sign, Str ''0x'', Plus (Chars ''0123456789abcdefABCDEF_'')],
      seqs [re_sign, Chars ''123456789'', Star re_digit_us, re_sexagesimal]]"

text \<open>
  \<^verbatim>\<open>[0-9][0-9][0-9][0-9]-[0-9][0-9]-[0-9][0-9]\<close> and
  \<^verbatim>\<open>[0-9][0-9][0-9][0-9]-[0-9][0-9]?-[0-9][0-9]?(?:[Tt]|[ \t]+)[0-9][0-9]?:[0-9][0-9]:[0-9][0-9](?:\.[0-9]*)?(?:[ \t]*(?:Z|[-+][0-9][0-9]?(?::[0-9][0-9])?))?\<close>
\<close>

definition re_blank :: rexp where
  "re_blank = Chars [CHR '' '', CHR 0x09]"

definition timestamp_re :: rexp where
  "timestamp_re = alts
     [seqs [re_digit, re_digit, re_digit, re_digit, Str ''-'', re_digit, re_digit, Str ''-'',
            re_digit, re_digit],
      seqs [re_digit, re_digit, re_digit, re_digit, Str ''-'', re_digit, Opt re_digit, Str ''-'',
            re_digit, Opt re_digit,
            alts [Chars ''Tt'', Plus re_blank],
            re_digit, Opt re_digit, Str '':'', re_digit, re_digit, Str '':'', re_digit, re_digit,
            Opt (seqs [Str ''.'', Star re_digit]),
            Opt (seqs [Star re_blank,
                       alts [Str ''Z'',
                             seqs [Chars ''-+'', re_digit, Opt re_digit,
                                   Opt (seqs [Str '':'', re_digit, re_digit])]]])]]"

definition bool_words :: "string list" where
  "bool_words =
     [''yes'', ''Yes'', ''YES'', ''no'', ''No'', ''NO'', ''true'', ''True'', ''TRUE'',
      ''false'', ''False'', ''FALSE'', ''on'', ''On'', ''ON'', ''off'', ''Off'', ''OFF'']"

definition null_words :: "string list" where
  "null_words = [''~'', ''null'', ''Null'', ''NULL'', []]"

text \<open>
  The tag that \<^verbatim>\<open>Resolver.resolve\<close> detects for the text of a scalar is the tag of a
  string: no implicit resolver (bool, float, int, merge, null, timestamp, value, yaml)
  matches.
\<close>

definition resolves_to_str :: "string \<Rightarrow> bool" where
  "resolves_to_str s \<longleftrightarrow>
     s \<notin> set bool_words \<and> \<not> fullmatch float_re s \<and> \<not> fullmatch int_re s \<and> s \<noteq> ''<<'' \<and>
     s \<notin> set null_words \<and> \<not> fullmatch timestamp_re s \<and> s \<noteq> ''='' \<and>
     s \<notin> set [''!'', ''&'', ''*'']"

subsection \<open>The analysis of a scalar\<close>

text \<open>
  \<^verbatim>\<open>Emitter.analyze_scalar\<close>, for a text without line breaks and special characters.
  \<open>yaml_space c\<close> is \<^verbatim>\<open>c in '\0 \t\r\n\x85'\<close> with the two separators U+2028 and U+2029,
  which are above 255 and so never occur here.
\<close>

definition yaml_space :: "char \<Rightarrow> bool" where
  "yaml_space c \<longleftrightarrow> c \<in> set [CHR 0x00, CHR '' '', CHR 0x09, CHR 0x0D, CHR 0x0A, CHR 0x85]"

definition followed_by_whitespace :: "string \<Rightarrow> bool" where
  "followed_by_whitespace rest \<longleftrightarrow> rest = [] \<or> yaml_space (hd rest)"

text \<open>
  A block indicator at the first character: one of \<^verbatim>\<open>#,[]{}&*!|>'"%@`\<close>, or \<^verbatim>\<open>?\<close>,
  \<^verbatim>\<open>:\<close> or \<^verbatim>\<open>-\<close> followed by white space or by nothing.
\<close>

definition leading_indicator :: "string \<Rightarrow> bool" where
  "leading_indicator s \<longleftrightarrow>
     (case s of
        [] \<Rightarrow> False
      | c # cs \<Rightarrow>
          c \<in> set (''#,[]{}&*!|>'' @ [CHR 0x27, CHR 0x22] @ ''%@`'') \<or>
          (c \<in> set ''?:-'' \<and> followed_by_whitespace cs))"

text \<open>
  A block indicator after the first character: a colon followed by white space or by
  nothing, or a hash sign preceded by white space. The first argument is the character
  before.
\<close>

fun inner_indicator :: "char \<Rightarrow> string \<Rightarrow> bool" where
  "inner_indicator prev [] = False"
| "inner_indicator prev (c # cs) =
     ((c = CHR '':'' \<and> followed_by_whitespace cs) \<or> (c = CHR ''#'' \<and> yaml_space prev) \<or>
      inner_indicator c cs)"

definition block_indicators :: "string \<Rightarrow> bool" where
  "block_indicators s \<longleftrightarrow>
     prefix ''---'' s \<or> prefix ''...'' s \<or> leading_indicator s \<or>
     (case s of [] \<Rightarrow> False | c # cs \<Rightarrow> inner_indicator c cs)"

text \<open>
  \<^verbatim>\<open>allow_block_plain\<close> of a text that is not empty: no space at either end and no block
  indicator.
\<close>

definition allow_block_plain :: "string \<Rightarrow> bool" where
  "allow_block_plain s \<longleftrightarrow> hd s \<noteq> CHR '' '' \<and> last s \<noteq> CHR '' '' \<and> \<not> block_indicators s"

text \<open>
  \<^verbatim>\<open>choose_scalar_style\<close> for the text of a string: plain when the scalar is implicit and
  the analysis allows it, single quotes otherwise. An empty text resolves to null and is
  quoted.
\<close>

definition plain_style :: "string \<Rightarrow> bool" where
  "plain_style s \<longleftrightarrow> (if s = [] \<or> \<not> allow_block_plain s then False else resolves_to_str s)"

text \<open>\<^verbatim>\<open>write_single_quoted\<close>: a quote in the text is written twice.\<close>

definition write_single_quoted :: "string \<Rightarrow> string" where
  "write_single_quoted s =
     CHR 0x27 # concat (map (\<lambda>c. if c = CHR 0x27 then [c, c] else [c]) s) @ [CHR 0x27]"

definition write_str :: "string \<Rightarrow> string" where
  "write_str s = (if plain_style s then s else write_single_quoted s)"

subsection \<open>The emitter\<close>

text \<open>
  The text of a scalar: a string plain or quoted, an integer as \<^verbatim>\<open>str\<close> writes it, a
  Boolean as \<^verbatim>\<open>true\<close> or \<^verbatim>\<open>false\<close>, \<^verbatim>\<open>None\<close> as \<^verbatim>\<open>null\<close>.
\<close>

fun write_scalar :: "node \<Rightarrow> string" where
  "write_scalar (PyStr s) = write_str s"
| "write_scalar (PyInt i) = str_of_int i"
| "write_scalar (PyBool b) = (if b then ''true'' else ''false'')"
| "write_scalar PyNone = ''null''"
| "write_scalar _ = []"

definition pad :: "nat \<Rightarrow> string" where
  "pad j = replicate j CHR '' ''"

definition nl :: string where
  "nl = [CHR 0x0A]"

text \<open>
  A block collection at indentation \<open>j\<close> is a list of entries (\<open>key: value\<close>, or
  \<open>- item\<close>), each entry starting at column \<open>j\<close>. \<open>block j es\<close> writes every entry on a
  line of its own; \<open>block_inline j es\<close> is the block that starts on the line of the dash
  of the sequence around it.
\<close>

definition block :: "nat \<Rightarrow> string list \<Rightarrow> string" where
  "block j es = concat (map (\<lambda>e. pad j @ e) es)"

definition block_inline :: "nat \<Rightarrow> string list \<Rightarrow> string" where
  "block_inline j es = drop j (block j es)"

text \<open>
  What follows the colon of a key in a mapping at indentation \<open>j\<close>: \<open>es_map\<close> are the
  entries of the value when it is a dictionary (at \<open>j + 2\<close>), \<open>es_seq\<close> when it is a list
  (at \<open>j\<close>: a sequence in a mapping is not indented).
\<close>

definition in_mapping :: "nat \<Rightarrow> node \<Rightarrow> string list \<Rightarrow> string list \<Rightarrow> string" where
  "in_mapping j v es_map es_seq =
     (case v of
        PyDict kvs \<Rightarrow> if kvs = [] then '' {}'' @ nl else nl @ block (j + 2) es_map
      | PyList xs \<Rightarrow> if xs = [] then '' []'' @ nl else nl @ block j es_seq
      | _ \<Rightarrow> '' '' @ write_scalar v @ nl)"

text \<open>What follows the dash of an item in a sequence at indentation \<open>j\<close>.\<close>

definition in_sequence :: "nat \<Rightarrow> node \<Rightarrow> string list \<Rightarrow> string" where
  "in_sequence j x es =
     (case x of
        PyDict kvs \<Rightarrow> if kvs = [] then '' {}'' @ nl else '' '' @ block_inline (j + 2) es
      | PyList xs \<Rightarrow> if xs = [] then '' []'' @ nl else '' '' @ block_inline (j + 2) es
      | _ \<Rightarrow> '' '' @ write_scalar x @ nl)"

text \<open>
  The entries of a block collection at indentation \<open>j\<close>. \<^verbatim>\<open>represent_mapping\<close> sorts the
  items of a dictionary (\<^verbatim>\<open>sort_keys\<close> is on by default).
\<close>

primrec entries :: "node \<Rightarrow> nat \<Rightarrow> string list"
  and entries_items :: "(string \<times> node) list \<Rightarrow> nat \<Rightarrow> (string \<times> string) list"
  and entries_item :: "string \<times> node \<Rightarrow> nat \<Rightarrow> string \<times> string"
  and entries_list :: "node list \<Rightarrow> nat \<Rightarrow> string list"
where
  "entries (PyDict kvs) j = map snd (sort_key fst (entries_items kvs j))"
| "entries (PyList xs) j = entries_list xs j"
| "entries (PyStr s) j = []"
| "entries (PyInt i) j = []"
| "entries (PyBool b) j = []"
| "entries PyNone j = []"
| "entries_items [] j = []"
| "entries_items (kv # kvs) j = entries_item kv j # entries_items kvs j"
| "entries_item (k, v) j = (k, write_str k @ '':'' @ in_mapping j v (entries v (j + 2)) (entries v j))"
| "entries_list [] j = []"
| "entries_list (x # xs) j = (''-'' @ in_sequence j x (entries x (j + 2))) # entries_list xs j"

text \<open>
  The document: a collection that is not empty as a block at indentation 0, an empty one
  in flow style, a scalar on a line; after a plain scalar at the root the document is
  open ended and PyYAML closes it with a line of three dots.
\<close>

definition plain_scalar :: "node \<Rightarrow> bool" where
  "plain_scalar v \<longleftrightarrow> (case v of PyStr s \<Rightarrow> plain_style s | _ \<Rightarrow> True)"

definition yaml_document :: "node \<Rightarrow> string" where
  "yaml_document t =
     (case t of
        PyDict kvs \<Rightarrow> if kvs = [] then ''{}'' @ nl else block 0 (entries t 0)
      | PyList xs \<Rightarrow> if xs = [] then ''[]'' @ nl else block 0 (entries t 0)
      | _ \<Rightarrow> write_scalar t @ nl @ (if plain_scalar t then ''...'' @ nl else []))"

text \<open>The trees that the model covers.\<close>

definition printable :: "string \<Rightarrow> bool" where
  "printable s \<longleftrightarrow> list_all (\<lambda>c. 0x20 \<le> (of_char c :: nat) \<and> (of_char c :: nat) \<le> 0x7E) s"

primrec yaml_modelled :: "node \<Rightarrow> bool"
  and yaml_modelled_items :: "(string \<times> node) list \<Rightarrow> bool"
  and yaml_modelled_item :: "string \<times> node \<Rightarrow> bool"
  and yaml_modelled_list :: "node list \<Rightarrow> bool"
where
  "yaml_modelled (PyDict kvs) = yaml_modelled_items kvs"
| "yaml_modelled (PyList xs) = yaml_modelled_list xs"
| "yaml_modelled (PyStr s) = printable s"
| "yaml_modelled (PyInt i) = True"
| "yaml_modelled (PyBool b) = True"
| "yaml_modelled PyNone = True"
| "yaml_modelled_items [] = True"
| "yaml_modelled_items (kv # kvs) = (yaml_modelled_item kv \<and> yaml_modelled_items kvs)"
| "yaml_modelled_item (k, v) = (printable k \<and> k \<noteq> [] \<and> length k < 123 \<and> yaml_modelled v)"
| "yaml_modelled_list [] = True"
| "yaml_modelled_list (x # xs) = (yaml_modelled x \<and> yaml_modelled_list xs)"

definition py_yaml_dump :: "node \<Rightarrow> error + string" where
  "py_yaml_dump t = (if yaml_modelled t then Inr (yaml_document t) else Inl OutsideModel)"

text \<open>
  The collaborators as they are in Python, but for the resolver and the YAML serializer,
  which stay arguments.
\<close>

definition python_libs ::
  "(node \<Rightarrow> string \<Rightarrow> error + node) \<Rightarrow> (node \<Rightarrow> error + string) \<Rightarrow> libs" where
  "python_libs resolver dump =
     \<lparr>resolve_referenced_resource = resolver, json_dumps = py_json_dumps,
      json_loads = py_json_loads, yaml_dump = dump\<rparr>"

text \<open>A resolver that finds no stack.\<close>

definition stack_not_found :: "node \<Rightarrow> string \<Rightarrow> error + node" where
  "stack_not_found n region = Inl (ResolveError ''Stack not found'')"

section \<open>Notions of the specification\<close>

text \<open>A literal text element of the result: \<^verbatim>\<open>isinstance(x, str)\<close>.\<close>

fun is_str :: "node \<Rightarrow> bool" where
  "is_str (PyStr s) = True"
| "is_str _ = False"

text \<open>
  A deferred expression: a dictionary with one entry whose key is \<^verbatim>\<open>Ref\<close> or starts with
  \<^verbatim>\<open>Fn::\<close>.
\<close>

definition is_deferred :: "node \<Rightarrow> bool" where
  "is_deferred n \<longleftrightarrow> (\<exists>k v. n = PyDict [(k, v)] \<and> is_aws_fn k)"

fun is_scalar :: "node \<Rightarrow> bool" where
  "is_scalar (PyDict kvs) = False"
| "is_scalar (PyList xs) = False"
| "is_scalar _ = True"

definition is_resource_lookup :: "node \<Rightarrow> bool" where
  "is_resource_lookup n \<longleftrightarrow>
     (\<exists>s t. n = PyDict [(''Stack'', PyStr s), (''Output'', PyStr t)] \<or>
            n = PyDict [(''Output'', PyStr t), (''Stack'', PyStr s)])"

definition has_stack_output :: "(string \<times> node) list \<Rightarrow> bool" where
  "has_stack_output kvs \<longleftrightarrow> ''Stack'' \<in> set (map fst kvs) \<and> ''Output'' \<in> set (map fst kvs)"

primrec visited_lookups :: "node \<Rightarrow> node list"
  and visited_items :: "(string \<times> node) list \<Rightarrow> node list"
  and visited_item :: "string \<times> node \<Rightarrow> node list"
  and visited_list :: "node list \<Rightarrow> node list"
where
  "visited_lookups (PyDict kvs) =
     (if has_stack_output kvs then [PyDict kvs]
      else if length kvs = 1 \<and> is_aws_fn (fst (hd kvs)) then []
      else visited_items kvs)"
| "visited_lookups (PyList xs) = visited_list xs"
| "visited_lookups (PyStr s) = []"
| "visited_lookups (PyInt i) = []"
| "visited_lookups (PyBool b) = []"
| "visited_lookups PyNone = []"
| "visited_items [] = []"
| "visited_items (kv # kvs) = visited_item kv @ visited_items kvs"
| "visited_item (k, v) = visited_lookups v"
| "visited_list [] = []"
| "visited_list (x # xs) = visited_lookups x @ visited_list xs"

definition first_failure :: "libs \<Rightarrow> string \<Rightarrow> node list \<Rightarrow> error option" where
  "first_failure L region ns =
     (case find (\<lambda>n. isl (resolve_referenced_resource L n region)) ns of
        None \<Rightarrow> None
      | Some n \<Rightarrow> Some (projl (resolve_referenced_resource L n region)))"

primrec lookup_free :: "node \<Rightarrow> bool"
  and lookup_free_items :: "(string \<times> node) list \<Rightarrow> bool"
  and lookup_free_item :: "string \<times> node \<Rightarrow> bool"
  and lookup_free_list :: "node list \<Rightarrow> bool"
where
  "lookup_free (PyDict kvs) = (\<not> has_stack_output kvs \<and> lookup_free_items kvs)"
| "lookup_free (PyList xs) = lookup_free_list xs"
| "lookup_free (PyStr s) = True"
| "lookup_free (PyInt i) = True"
| "lookup_free (PyBool b) = True"
| "lookup_free PyNone = True"
| "lookup_free_items [] = True"
| "lookup_free_items (kv # kvs) = (lookup_free_item kv \<and> lookup_free_items kvs)"
| "lookup_free_item (k, v) = lookup_free v"
| "lookup_free_list [] = True"
| "lookup_free_list (x # xs) = (lookup_free x \<and> lookup_free_list xs)"

primrec expression_free :: "node \<Rightarrow> bool"
  and expression_free_items :: "(string \<times> node) list \<Rightarrow> bool"
  and expression_free_item :: "string \<times> node \<Rightarrow> bool"
  and expression_free_list :: "node list \<Rightarrow> bool"
where
  "expression_free (PyDict kvs) =
     (\<not> has_stack_output kvs \<and> \<not> is_deferred (PyDict kvs) \<and> expression_free_items kvs)"
| "expression_free (PyList xs) = expression_free_list xs"
| "expression_free (PyStr s) = True"
| "expression_free (PyInt i) = True"
| "expression_free (PyBool b) = True"
| "expression_free PyNone = True"
| "expression_free_items [] = True"
| "expression_free_items (kv # kvs) = (expression_free_item kv \<and> expression_free_items kvs)"
| "expression_free_item (k, v) = expression_free v"
| "expression_free_list [] = True"
| "expression_free_list (x # xs) = (expression_free x \<and> expression_free_list xs)"

section \<open>The decoder always returns\<close>

lemma skip_ws_length: "length (skip_ws s) \<le> length s"
  by (simp add: skip_ws_def length_dropWhile_le)

lemma scanstring_length:
  "scanstring s = Inr (str, rest) \<Longrightarrow> length rest < length s"
proof (induction s arbitrary: str rule: scanstring.induct)
  case 1
  then show ?case by simp
next
  case (2 c cs)
  show ?case
  proof (cases "c = dq")
    case True
    with "2.prems" show ?thesis by simp
  next
    case ndq: False
    show ?thesis
    proof (cases "c = bs")
      case True
      with ndq "2.prems" obtain e r where cs: "cs = e # r" by (cases cs) auto
      show ?thesis
      proof (cases "e = CHR ''u''")
        case u: True
        with True ndq cs "2.prems" obtain n str' where
          n: "decode_uXXXX r = Some n" "n < 256"
          and r: "scanstring (drop 4 r) = Inr (str', rest)"
          by (auto split: option.splits if_splits sum.splits)
        from "2.IH"(1) [OF ndq True cs u n(1) n(2) r] have "length rest < length (drop 4 r)" .
        with cs show ?thesis by simp
      next
        case nu: False
        with True ndq cs "2.prems" obtain ch str' where
          ch: "backslash e = Some ch" and r: "scanstring r = Inr (str', rest)"
          by (auto split: option.splits if_splits sum.splits)
        from "2.IH"(2) [OF ndq True cs nu ch r] cs show ?thesis by simp
      qed
    next
      case nbs: False
      with ndq "2.prems" obtain str' where
        c: "\<not> (of_char c :: nat) < 0x20" and r: "scanstring cs = Inr (str', rest)"
        by (auto split: if_splits sum.splits)
      from "2.IH"(3) [OF ndq nbs c r] show ?thesis by simp
    qed
  qed
qed

lemma match_integer_length:
  "match_integer s = Some (i, rest) \<Longrightarrow> length rest < length s"
proof -
  assume a: "match_integer s = Some (i, rest)"
  have d: "length (dropWhile is_digit r) \<le> length r" for r
    by (simp add: length_dropWhile_le)
  show ?thesis
  proof (cases "s \<noteq> [] \<and> hd s = CHR ''-''")
    case True
    then obtain t where s: "s = CHR ''-'' # t" by (cases s) auto
    with a obtain c r where t: "t = c # r" by (cases t) (auto simp: match_integer_def)
    from a s t d [of r] show ?thesis
      by (auto simp: match_integer_def le_imp_less_Suc less_SucI split: if_splits)
  next
    case False
    with a obtain c r where t: "s = c # r" by (cases s) (auto simp: match_integer_def)
    from a t False d [of r] show ?thesis
      by (auto simp: match_integer_def le_imp_less_Suc split: if_splits)
  qed
qed

definition progress :: "string \<Rightarrow> (error + node \<times> string) option \<Rightarrow> bool" where
  "progress s r \<longleftrightarrow>
     (case r of None \<Rightarrow> False | Some (Inl e) \<Rightarrow> True | Some (Inr (v, rest)) \<Rightarrow> length rest < length s)"

lemma progress_simps [simp]:
  "progress s None = False"
  "progress s (Some (Inl e)) = True"
  "progress s (Some (Inr (v, rest))) = (length rest < length s)"
  by (simp_all add: progress_def)

lemma progress_mono: "progress s r \<Longrightarrow> length s \<le> length t \<Longrightarrow> progress t r"
  by (auto simp: progress_def split: option.splits sum.splits)

lemma scan_once_Suc_progress:
  assumes obj: "\<And>s pairs. length s < n \<Longrightarrow> progress s (parse_object n s pairs)"
    and arr: "\<And>s vals. length s < n \<Longrightarrow> progress s (parse_array n s vals)"
    and len: "length s < Suc n"
  shows "progress s (scan_once (Suc n) s)"
proof (cases s)
  case Nil
  then show ?thesis by simp
next
  case (Cons c cs)
  with len have lcs: "length cs < n" by simp
  consider (str) "c = dq" | (obj) "c \<noteq> dq" "c = CHR ''{''" | (arr) "c \<noteq> dq" "c = CHR ''[''"
    | (other) "c \<noteq> dq" "c \<noteq> CHR ''{''" "c \<noteq> CHR ''[''" by blast
  then show ?thesis
  proof cases
    case str
    then show ?thesis using Cons scanstring_length [of cs]
      by (auto split: sum.splits)
  next
    case obj
    show ?thesis
    proof (cases "skip_ws cs")
      case Nil
      with obj Cons show ?thesis by (simp add: dq_def)
    next
      case (Cons c' r)
      with skip_ws_length [of cs] have r: "length r < length cs" by simp
      with lcs have "length r < n" by simp
      from assms(1) [OF this, of "[]"] have "progress (c # cs) (parse_object n r [])"
        using r by (auto intro: progress_mono)
      with obj \<open>s = c # cs\<close> Cons r show ?thesis by (simp add: dq_def)
    qed
  next
    case arr
    show ?thesis
    proof (cases "skip_ws cs")
      case Nil
      with arr Cons show ?thesis by (simp add: dq_def)
    next
      case (Cons c' r)
      with skip_ws_length [of cs] have r: "length (c' # r) \<le> length cs" by simp
      with lcs have "length (c' # r) < n" by simp
      from assms(2) [OF this, of "[]"] have "progress (c # cs) (parse_array n (c' # r) [])"
        using r by (auto intro: progress_mono)
      with arr \<open>s = c # cs\<close> Cons r show ?thesis by (simp add: dq_def)
    qed
  next
    case other
    have k: "length cs - k < Suc (length cs)" for k by arith
    show ?thesis
    proof (cases "match_integer (c # cs)")
      case None
      with other Cons k show ?thesis by simp
    next
      case (Some ir)
      obtain i rest where ir: "ir = (i, rest)" by (cases ir)
      from match_integer_length [of "c # cs" i rest] Some ir
      have "length rest < length (c # cs)" by simp
      then show ?thesis using other Cons Some ir k by simp
    qed
  qed
qed


lemma parse_object_Suc_progress:
  assumes scan: "\<And>s. length s < n \<Longrightarrow> progress s (scan_once n s)"
    and obj: "\<And>s pairs. length s < n \<Longrightarrow> progress s (parse_object n s pairs)"
    and len: "length s < Suc n"
  shows "progress s (parse_object (Suc n) s pairs)"
proof (cases "scanstring s")
  case (Inl e)
  then show ?thesis by simp
next
  case (Inr kr)
  obtain key r1 where kr: "kr = (key, r1)" by (cases kr)
  from scanstring_length [of s key r1] Inr kr have r1: "length r1 < length s" by simp
  show ?thesis
  proof (cases "skip_ws r1")
    case Nil
    with Inr kr show ?thesis by simp
  next
    case c1: (Cons c1 r2)
    with skip_ws_length [of r1] r1 have r2: "Suc (length r2) < length s" by simp
    show ?thesis
    proof (cases "c1 = CHR '':''")
      case False
      with Inr kr c1 show ?thesis by simp
    next
      case colon: True
      from skip_ws_length [of r2] r2 len have l2: "length (skip_ws r2) < n" by simp
      from scan [OF l2] have p2: "progress (skip_ws r2) (scan_once n (skip_ws r2))" .
      show ?thesis
      proof (cases "scan_once n (skip_ws r2)")
        case None
        with p2 show ?thesis by simp
      next
        case (Some res)
        show ?thesis
        proof (cases res)
          case (Inl e)
          with Inr kr c1 colon Some show ?thesis by simp
        next
          case vr: (Inr vr)
          obtain v r3 where vr3: "vr = (v, r3)" by (cases vr)
          from p2 Some vr vr3 have "length r3 < length (skip_ws r2)" by simp
          with skip_ws_length [of r2] r2 have r3: "length r3 < length s" by simp
          show ?thesis
          proof (cases "skip_ws r3")
            case Nil
            with Inr kr c1 colon Some vr vr3 show ?thesis by simp
          next
            case c2: (Cons c2 r4)
            with skip_ws_length [of r3] r3 have r4: "Suc (length r4) < length s" by simp
            show ?thesis
            proof (cases "skip_ws r4")
              case Nil
              with Inr kr c1 colon Some vr vr3 c2 r4 show ?thesis by simp
            next
              case c3: (Cons c3 r5)
              with skip_ws_length [of r4] r4 have r5: "length r5 < length s" by simp
              with len have "length r5 < n" by simp
              from obj [OF this, of "pairs @ [(key, v)]"] r5
              have "progress s (parse_object n r5 (pairs @ [(key, v)]))"
                by (auto intro: progress_mono)
              with Inr kr c1 colon Some vr vr3 c2 r4 c3 show ?thesis by simp
            qed
          qed
        qed
      qed
    qed
  qed
qed

lemma parse_array_Suc_progress:
  assumes scan: "\<And>s. length s < Suc n \<Longrightarrow> progress s (scan_once (Suc n) s)"
    and arr: "\<And>s vals. length s < n \<Longrightarrow> progress s (parse_array n s vals)"
    and len: "length s < Suc n"
  shows "progress s (parse_array (Suc n) s vals)"
proof (cases "scan_once (Suc n) s")
  case None
  with scan [OF len] show ?thesis by simp
next
  case (Some res)
  show ?thesis
  proof (cases res)
    case (Inl e)
    with Some show ?thesis by simp
  next
    case (Inr vr)
    obtain v r1 where vr: "vr = (v, r1)" by (cases vr)
    from scan [OF len] Some Inr vr have r1: "length r1 < length s" by simp
    show ?thesis
    proof (cases "skip_ws r1")
      case Nil
      with Some Inr vr show ?thesis by simp
    next
      case (Cons c r2)
      with skip_ws_length [of r1] r1 have r2: "Suc (length r2) < length s" by simp
      with skip_ws_length [of r2] have l: "length (skip_ws r2) < length s" by simp
      with len have "length (skip_ws r2) < n" by simp
      from arr [OF this, of "vals @ [v]"] l
      have "progress s (parse_array n (skip_ws r2) (vals @ [v]))"
        by (auto intro: progress_mono)
      with Some Inr vr Cons r2 show ?thesis by simp
    qed
  qed
qed

lemma scan_progress:
  "(\<forall>s. length s < n \<longrightarrow> progress s (scan_once n s)) \<and>
   (\<forall>s pairs. length s < n \<longrightarrow> progress s (parse_object n s pairs)) \<and>
   (\<forall>s vals. length s < n \<longrightarrow> progress s (parse_array n s vals))"
proof (induction n)
  case 0
  then show ?case by simp
next
  case (Suc n)
  have a: "progress s (scan_once (Suc n) s)" if "length s < Suc n" for s
    using scan_once_Suc_progress [of n s] Suc that by blast
  have b: "progress s (parse_object (Suc n) s pairs)" if "length s < Suc n" for s pairs
    using parse_object_Suc_progress [of n s pairs] Suc that by blast
  have c: "progress s (parse_array (Suc n) s vals)" if "length s < Suc n" for s vals
    using parse_array_Suc_progress [of n s vals] a Suc that by blast
  from a b c show ?case by blast
qed

lemma decode_total: "\<exists>r. decode s = Some r"
proof -
  have "length (skip_ws s) < Suc (length s)"
    using skip_ws_length [of s] by simp
  with scan_progress [of "Suc (length s)"]
  have "progress (skip_ws s) (scan_once (Suc (length s)) (skip_ws s))" by blast
  then show ?thesis
    by (auto simp: decode_def progress_def split: option.splits sum.splits)
qed

section \<open>The decoder reads back what the encoder wrote\<close>

lemma hex_val_hex_digit: "n < 16 \<Longrightarrow> hex_val (hex_digit n) = Some n"
proof -
  have "\<forall>n\<in>{0..<16}. hex_val (hex_digit n) = Some n"
    by code_simp
  then show "n < 16 \<Longrightarrow> hex_val (hex_digit n) = Some n" by simp
qed

lemma decode_uXXXX_escape:
  "decode_uXXXX (CHR ''0'' # CHR ''0'' # hex_digit (of_char c div 16) # hex_digit (of_char c mod 16) # t)
     = Some (of_char c)"
proof -
  have a: "(of_char c :: nat) div 16 < 16"
    by (rule less_mult_imp_div_less) simp
  have b: "(of_char c :: nat) mod 16 < 16" by simp
  have z: "hex_val CHR ''0'' = Some 0" by (simp add: hex_val_def)
  show ?thesis
    by (simp add: decode_uXXXX_def z hex_val_hex_digit [OF a] hex_val_hex_digit [OF b])
qed

lemma scanstring_escape_char:
  assumes t: "scanstring t = Inr (str, r)"
  shows "scanstring (escape_ascii c @ t) = Inr (c # str, r)"
proof -
  consider (special) "c \<in> {bs, dq, CHR 0x08, CHR 0x0C, CHR 0x0A, CHR 0x0D, CHR 0x09}"
    | (plain) "c \<notin> {bs, dq, CHR 0x08, CHR 0x0C, CHR 0x0A, CHR 0x0D, CHR 0x09}"
        "0x20 \<le> (of_char c :: nat) \<and> (of_char c :: nat) \<le> 0x7E"
    | (uni) "c \<notin> {bs, dq, CHR 0x08, CHR 0x0C, CHR 0x0A, CHR 0x0D, CHR 0x09}"
        "\<not> (0x20 \<le> (of_char c :: nat) \<and> (of_char c :: nat) \<le> 0x7E)"
    by blast
  then show ?thesis
  proof cases
    case special
    then show ?thesis
      using t by (auto simp: escape_ascii_def backslash_def dq_def bs_def)
  next
    case plain
    then have "escape_ascii c = [c]" by (simp add: escape_ascii_def)
    moreover from plain have "c \<noteq> dq" "c \<noteq> bs" "\<not> (of_char c :: nat) < 0x20" by auto
    ultimately show ?thesis using t by simp
  next
    case uni
    then have e: "escape_ascii c = [bs, CHR ''u'', CHR ''0'', CHR ''0'',
            hex_digit (of_char c div 16), hex_digit (of_char c mod 16)]"
      by (simp add: escape_ascii_def)
    have "bs \<noteq> dq" by (simp add: bs_def dq_def)
    then show ?thesis
      using t by (simp add: e decode_uXXXX_escape)
  qed
qed

lemma scanstring_escape:
  "scanstring (concat (map escape_ascii s) @ dq # rest) = Inr (s, rest)"
proof (induction s)
  case Nil
  then show ?case by simp
next
  case (Cons c s)
  from scanstring_escape_char [OF Cons.IH, of c] show ?case by simp
qed

lemma scanstring_encode:
  "scanstring (tl (encode_basestring_ascii s) @ rest) = Inr (s, rest)"
  by (simp add: encode_basestring_ascii_def scanstring_escape)

lemma of_char_digit_char: "d < 10 \<Longrightarrow> (of_char (digit_char d) :: nat) = 48 + d"
  by (simp add: digit_char_def)

lemma is_digit_digit_char: "d < 10 \<Longrightarrow> is_digit (digit_char d)"
  by (simp add: is_digit_def of_char_digit_char)

lemma digit_char_eq_zero: "d < 10 \<Longrightarrow> digit_char d = CHR ''0'' \<longleftrightarrow> d = 0"
proof -
  assume d: "d < 10"
  have "digit_char d = CHR ''0'' \<longleftrightarrow> (of_char (digit_char d) :: nat) = of_char CHR ''0''"
    by (simp only: of_char_eq_iff)
  also have "\<dots> \<longleftrightarrow> d = 0" using d by (simp add: of_char_digit_char)
  finally show ?thesis .
qed

lemma str_of_nat_digits: "list_all is_digit (str_of_nat n) \<and> str_of_nat n \<noteq> []"
proof (induction n rule: str_of_nat.induct)
  case (1 n)
  show ?case
  proof (cases "n < 10")
    case True
    then show ?thesis by (simp add: str_of_nat.simps [of n] is_digit_digit_char)
  next
    case False
    with 1 show ?thesis
      by (simp add: str_of_nat.simps [of n] is_digit_digit_char)
  qed
qed

lemma nat_of_digits_snoc:
  "nat_of_digits (ds @ [d]) = 10 * nat_of_digits ds + (of_char d - 48)"
  by (simp add: nat_of_digits_def)

lemma nat_of_digits_str_of_nat: "nat_of_digits (str_of_nat n) = n"
proof (induction n rule: str_of_nat.induct)
  case (1 n)
  show ?case
  proof (cases "n < 10")
    case True
    then show ?thesis
      by (simp add: str_of_nat.simps [of n] nat_of_digits_def of_char_digit_char)
  next
    case False
    with 1 have "nat_of_digits (str_of_nat (n div 10)) = n div 10" by simp
    with False show ?thesis
      by (simp add: str_of_nat.simps [of n] nat_of_digits_snoc of_char_digit_char)
  qed
qed

lemma hd_str_of_nat: "hd (str_of_nat n) = CHR ''0'' \<longleftrightarrow> n = 0"
proof (induction n rule: str_of_nat.induct)
  case (1 n)
  show ?case
  proof (cases "n < 10")
    case True
    then show ?thesis by (simp add: str_of_nat.simps [of n] digit_char_eq_zero)
  next
    case False
    with 1 have "hd (str_of_nat (n div 10)) = CHR ''0'' \<longleftrightarrow> n div 10 = 0" by simp
    moreover from False have "n div 10 \<noteq> 0" by simp
    ultimately show ?thesis
      using False str_of_nat_digits [of "n div 10"]
      by (simp add: str_of_nat.simps [of n])
  qed
qed

lemma str_of_nat_0: "str_of_nat 0 = ''0''"
proof -
  have "digit_char 0 = CHR ''0''" by (simp add: digit_char_eq_zero)
  then show ?thesis by (simp add: str_of_nat.simps [of 0])
qed

lemma takeWhile_digits:
  assumes "list_all is_digit ds" and "rest = [] \<or> \<not> is_digit (hd rest)"
  shows "takeWhile is_digit (ds @ rest) = ds \<and> dropWhile is_digit (ds @ rest) = rest"
  using assms by (induction ds) (cases rest; simp)+

lemma is_digit_not_minus: "is_digit c \<Longrightarrow> c \<noteq> CHR ''-''"
  by (auto simp: is_digit_def)

lemma match_digits_str_of_nat:
  assumes rest: "rest = [] \<or> \<not> is_digit (hd rest)"
  shows "(case str_of_nat n @ rest of
            [] \<Rightarrow> None
          | d # r \<Rightarrow>
              if d = CHR ''0'' then Some (sign @ [d], r)
              else if is_digit d then Some (sign @ d # takeWhile is_digit r, dropWhile is_digit r)
              else None) = Some (sign @ str_of_nat n, rest)"
proof -
  from str_of_nat_digits [of n] obtain d ds where ds: "str_of_nat n = d # ds"
    and d: "is_digit d" and all: "list_all is_digit ds"
    by (cases "str_of_nat n") auto
  show ?thesis
  proof (cases "n = 0")
    case True
    then show ?thesis by (simp add: str_of_nat_0)
  next
    case False
    with hd_str_of_nat [of n] ds have "d \<noteq> CHR ''0''" by simp
    with ds d takeWhile_digits [OF all rest] show ?thesis by simp
  qed
qed

lemma match_integer_str_of_int:
  assumes rest: "rest = [] \<or> \<not> is_digit (hd rest)"
  shows "match_integer (str_of_int i @ rest) = Some (str_of_int i, rest)"
proof (cases "i < 0")
  case True
  then show ?thesis
    using match_digits_str_of_nat [OF rest, where n = "nat (- i)" and sign = "''-''"]
    by (simp add: match_integer_def str_of_int_def)
next
  case False
  from str_of_nat_digits [of "nat i"] obtain d ds where ds: "str_of_nat (nat i) = d # ds"
    and d: "is_digit d"
    by (cases "str_of_nat (nat i)") auto
  from d have "d \<noteq> CHR ''-''" by (rule is_digit_not_minus)
  with False ds show ?thesis
    using match_digits_str_of_nat [OF rest, where n = "nat i" and sign = "[]"]
    by (simp add: match_integer_def str_of_int_def)
qed

lemma int_of_str_str_of_int: "int_of_str (str_of_int i) = i"
proof (cases "i < 0")
  case True
  then show ?thesis
    by (simp add: int_of_str_def str_of_int_def nat_of_digits_str_of_nat)
next
  case False
  from str_of_nat_digits [of "nat i"] obtain d ds where ds: "str_of_nat (nat i) = d # ds"
    and d: "is_digit d"
    by (cases "str_of_nat (nat i)") auto
  from d have "d \<noteq> CHR ''-''" by (rule is_digit_not_minus)
  with False ds have "int_of_str (str_of_int i) = int (nat_of_digits (str_of_nat (nat i)))"
    by (simp add: int_of_str_def str_of_int_def)
  with False show ?thesis by (simp add: nat_of_digits_str_of_nat)
qed

definition follow_ok :: "string \<Rightarrow> bool" where
  "follow_ok rest \<longleftrightarrow> rest = [] \<or> hd rest \<in> {CHR '','', CHR '']'', CHR ''}''}"

lemma follow_ok_simps [simp]:
  "follow_ok []" "follow_ok (CHR '','' # r)" "follow_ok (CHR '']'' # r)" "follow_ok (CHR ''}'' # r)"
  by (simp_all add: follow_ok_def)

lemma follow_ok_not_digit: "follow_ok rest \<Longrightarrow> rest = [] \<or> \<not> is_digit (hd rest)"
  by (auto simp: follow_ok_def is_digit_def)

lemma follow_ok_no_float: "follow_ok rest \<Longrightarrow> \<not> has_frac_or_exp rest"
proof (cases rest)
  case Nil
  then show ?thesis by (simp add: has_frac_or_exp_def has_exp_def)
next
  case (Cons c r)
  assume "follow_ok rest"
  with Cons have c: "c = CHR '','' \<or> c = CHR '']'' \<or> c = CHR ''}''"
    by (simp add: follow_ok_def)
  then have e: "\<not> has_exp (c # r)" by (auto simp: has_exp_def)
  from c e Cons show ?thesis
    by (cases r) (auto simp: has_frac_or_exp_def)
qed

lemma follow_ok_skip_ws: "follow_ok rest \<Longrightarrow> skip_ws rest = rest"
  by (cases rest) (auto simp: follow_ok_def skip_ws_def is_ws_def)

lemma encode_basestring_ascii_Cons:
  "encode_basestring_ascii s = dq # tl (encode_basestring_ascii s)"
  by (simp add: encode_basestring_ascii_def)

lemma scan_once_str:
  "scan_once (Suc n) (encode_basestring_ascii s @ rest) = Some (Inr (PyStr s, rest))"
proof -
  have "scan_once (Suc n) (dq # tl (encode_basestring_ascii s) @ rest) = Some (Inr (PyStr s, rest))"
    by (simp add: scanstring_encode)
  then show ?thesis using encode_basestring_ascii_Cons [of s] by (metis append_Cons)
qed

lemma is_digit_first:
  assumes "is_digit c \<or> c = CHR ''-''"
  shows "c \<noteq> dq \<and> c \<noteq> CHR ''{'' \<and> c \<noteq> CHR ''['' \<and> c \<noteq> CHR ''n'' \<and> c \<noteq> CHR ''t'' \<and> c \<noteq> CHR ''f''
    \<and> \<not> is_ws c"
  using assms by (auto simp: is_digit_def dq_def is_ws_def)

lemma str_of_int_first:
  "\<exists>c cs. str_of_int i = c # cs \<and> (is_digit c \<or> c = CHR ''-'')"
proof (cases "i < 0")
  case True
  then show ?thesis by (simp add: str_of_int_def)
next
  case False
  from str_of_nat_digits [of "nat i"] obtain d ds where "str_of_nat (nat i) = d # ds" "is_digit d"
    by (cases "str_of_nat (nat i)") auto
  with False show ?thesis by (simp add: str_of_int_def)
qed

lemma scan_once_int:
  assumes rest: "follow_ok rest"
  shows "scan_once (Suc n) (str_of_int i @ rest) = Some (Inr (PyInt i, rest))"
proof -
  from str_of_int_first [of i] obtain c cs where s: "str_of_int i = c # cs"
    and c: "is_digit c \<or> c = CHR ''-''" by blast
  from is_digit_first [OF c] have c': "c \<noteq> dq" "c \<noteq> CHR ''{''" "c \<noteq> CHR ''[''"
    "c \<noteq> CHR ''n''" "c \<noteq> CHR ''t''" "c \<noteq> CHR ''f''" by simp_all
  have m: "match_integer (c # cs @ rest) = Some (c # cs, rest)"
    using match_integer_str_of_int [OF follow_ok_not_digit [OF rest], of i] s by simp
  have f: "\<not> has_frac_or_exp rest" using rest by (rule follow_ok_no_float)
  have v: "int_of_str (c # cs) = i" using int_of_str_str_of_int [of i] s by simp
  have "scan_once (Suc n) (c # cs @ rest) = Some (Inr (PyInt i, rest))"
    using c' m f v by simp
  with s show ?thesis by simp
qed

lemma scan_once_literals:
  "scan_once (Suc n) (''true'' @ rest) = Some (Inr (PyBool True, rest))"
  "scan_once (Suc n) (''false'' @ rest) = Some (Inr (PyBool False, rest))"
  "scan_once (Suc n) (''null'' @ rest) = Some (Inr (PyNone, rest))"
  by (simp_all add: dq_def)

lemma dict_update_fresh:
  "k \<notin> set (map fst d) \<Longrightarrow> dict_update k v d = d @ [(k, v)]"
  by (induction d) auto

lemma foldl_dict_update:
  "distinct (map fst (d @ pairs)) \<Longrightarrow>
     foldl (\<lambda>d (k, v). dict_update k v d) d pairs = d @ pairs"
proof (induction pairs arbitrary: d)
  case Nil
  then show ?case by simp
next
  case (Cons p pairs)
  obtain k v where p: "p = (k, v)" by (cases p)
  from Cons.prems p have "k \<notin> set (map fst d)" by auto
  then have u: "dict_update k v d = d @ [(k, v)]" by (rule dict_update_fresh)
  from Cons.prems p have "distinct (map fst ((d @ [(k, v)]) @ pairs))" by simp
  from Cons.IH [OF this] u p show ?case by simp
qed

lemma dict_of_pairs_distinct: "distinct (map fst kvs) \<Longrightarrow> dict_of_pairs kvs = kvs"
  using foldl_dict_update [of "[]" kvs] by (simp add: dict_of_pairs_def)

lemma skip_ws_Cons: "skip_ws (c # r) = (if is_ws c then skip_ws r else c # r)"
  by (simp add: skip_ws_def)

lemma dumps_first: "\<exists>c r. py_json_dumps t = c # r \<and> \<not> is_ws c"
proof (cases t)
  case (PyStr s)
  then show ?thesis
    using encode_basestring_ascii_Cons [of s] by (auto simp: is_ws_def dq_def)
next
  case (PyInt i)
  from str_of_int_first [of i] obtain c cs where "str_of_int i = c # cs"
    "is_digit c \<or> c = CHR ''-''" by blast
  with is_digit_first [of c] PyInt show ?thesis by simp
qed (simp_all add: is_ws_def)

lemma dumps_items_first: "kvs \<noteq> [] \<Longrightarrow> dumps_items kvs = dq # tl (dumps_items kvs)"
proof (cases kvs)
  case Nil
  assume "kvs \<noteq> []"
  with Nil show ?thesis by simp
next
  case (Cons kv kvs')
  obtain k v where "kv = (k, v)" by (cases kv)
  with Cons encode_basestring_ascii_Cons [of k] show ?thesis
    by (metis append_Cons dumps_item.simps dumps_items.simps(2) list.sel(3))
qed

lemma dumps_list_first: "xs \<noteq> [] \<Longrightarrow> \<exists>c r. dumps_list xs = c # r \<and> \<not> is_ws c"
proof (cases xs)
  case Nil
  assume "xs \<noteq> []"
  with Nil show ?thesis by simp
next
  case (Cons x xs')
  from dumps_first [of x] obtain c r where "py_json_dumps x = c # r" "\<not> is_ws c" by blast
  with Cons show ?thesis by simp
qed

lemma skip_ws_space_dumps:
  "skip_ws (CHR '' '' # py_json_dumps t @ r) = py_json_dumps t @ r"
proof -
  from dumps_first [of t] obtain c cs where "py_json_dumps t = c # cs" "\<not> is_ws c" by blast
  then show ?thesis by (simp add: skip_ws_Cons is_ws_def)
qed

lemma skip_ws_space_dumps_list:
  "xs \<noteq> [] \<Longrightarrow> skip_ws (CHR '' '' # dumps_list xs @ r) = dumps_list xs @ r"
proof -
  assume "xs \<noteq> []"
  from dumps_list_first [OF this] obtain c cs where "dumps_list xs = c # cs" "\<not> is_ws c"
    by blast
  then show ?thesis by (simp add: skip_ws_Cons is_ws_def)
qed

definition rt_node :: "node \<Rightarrow> bool" where
  "rt_node t \<longleftrightarrow>
     (\<forall>n rest. follow_ok rest \<longrightarrow> length (py_json_dumps t) + length rest < n \<longrightarrow>
        scan_once n (py_json_dumps t @ rest) = Some (Inr (t, rest)))"

definition rt_list :: "node list \<Rightarrow> bool" where
  "rt_list xs \<longleftrightarrow>
     (\<forall>n rest vals. length (dumps_list xs) + 1 + length rest < n \<longrightarrow>
        parse_array n (dumps_list xs @ CHR '']'' # rest) vals =
          Some (Inr (PyList (vals @ xs), rest)))"

definition rt_items :: "(string \<times> node) list \<Rightarrow> bool" where
  "rt_items kvs \<longleftrightarrow>
     (\<forall>n rest pairs. length (dumps_items kvs) + 1 + length rest < n \<longrightarrow>
        parse_object n (tl (dumps_items kvs) @ CHR ''}'' # rest) pairs =
          Some (Inr (PyDict (dict_of_pairs (pairs @ kvs)), rest)))"

lemma rt_node_PyDict:
  assumes items: "kvs \<noteq> [] \<Longrightarrow> rt_items kvs" and d: "distinct (map fst kvs)"
  shows "rt_node (PyDict kvs)"
  unfolding rt_node_def
proof (intro allI impI)
  fix n and rest :: string
  assume len: "length (py_json_dumps (PyDict kvs)) + length rest < n"
  then obtain m where n: "n = Suc m" by (cases n) auto
  show "scan_once n (py_json_dumps (PyDict kvs) @ rest) = Some (Inr (PyDict kvs, rest))"
  proof (cases "kvs = []")
    case True
    then show ?thesis using n by (simp add: dq_def skip_ws_Cons is_ws_def)
  next
    case False
    from dumps_items_first [OF False] obtain r where r: "dumps_items kvs = dq # r"
      and tl: "tl (dumps_items kvs) = r" by (metis list.sel(3))
    from len n r have "length (dumps_items kvs) + 1 + length rest < m" by simp
    with items [OF False] tl
    have "parse_object m (r @ CHR ''}'' # rest) [] = Some (Inr (PyDict (dict_of_pairs kvs), rest))"
      by (simp add: rt_items_def)
    moreover have "dq \<noteq> CHR ''}''" "\<not> is_ws dq" "CHR ''{'' \<noteq> dq"
      by (simp_all add: dq_def is_ws_def)
    ultimately show ?thesis
      using n r d by (simp add: skip_ws_Cons dict_of_pairs_distinct)
  qed
qed

lemma rt_node_PyList:
  assumes xs: "xs \<noteq> [] \<Longrightarrow> rt_list xs"
  shows "rt_node (PyList xs)"
  unfolding rt_node_def
proof (intro allI impI)
  fix n and rest :: string
  assume len: "length (py_json_dumps (PyList xs)) + length rest < n"
  then obtain m where n: "n = Suc m" by (cases n) auto
  show "scan_once n (py_json_dumps (PyList xs) @ rest) = Some (Inr (PyList xs, rest))"
  proof (cases "xs = []")
    case True
    then show ?thesis using n by (simp add: dq_def skip_ws_Cons is_ws_def)
  next
    case False
    from dumps_list_first [OF False] obtain c r where r: "dumps_list xs = c # r"
      and c: "\<not> is_ws c" by blast
    have c2: "c \<noteq> CHR '']''"
    proof -
      obtain x xs' where x: "xs = x # xs'" using False by (cases xs) auto
      from dumps_first [of x] obtain c' r' where d: "py_json_dumps x = c' # r'" by blast
      have "c' \<noteq> CHR '']''"
      proof (cases x)
        case (PyStr s)
        with d encode_basestring_ascii_Cons [of s] show ?thesis by (auto simp: dq_def)
      next
        case (PyInt i)
        from str_of_int_first [of i] obtain e es where "str_of_int i = e # es"
          "is_digit e \<or> e = CHR ''-''" by blast
        with d PyInt show ?thesis by (auto simp: is_digit_def)
      qed (use d in \<open>auto split: if_splits\<close>)
      with x d r show ?thesis by simp
    qed
    from len n have "length (dumps_list xs) + 1 + length rest < m" by simp
    with xs [OF False]
    have "parse_array m (dumps_list xs @ CHR '']'' # rest) [] = Some (Inr (PyList xs, rest))"
      by (simp add: rt_list_def)
    then show ?thesis
      using n r c c2 by (simp add: skip_ws_Cons dq_def)
  qed
qed

lemma rt_node_scalars:
  "rt_node (PyStr s)" "rt_node (PyInt i)" "rt_node (PyBool b)" "rt_node PyNone"
proof -
  have s: "\<exists>m. n = Suc m" if "k < n" for n k :: nat
    using that by (cases n) auto
  show "rt_node (PyStr s)"
    unfolding rt_node_def using s scan_once_str by (metis py_json_dumps.simps(3))
  show "rt_node (PyInt i)"
    unfolding rt_node_def using s scan_once_int by (metis py_json_dumps.simps(4))
  show "rt_node (PyBool b)"
    unfolding rt_node_def
  proof (intro allI impI)
    fix n and rest :: string
    assume "length (py_json_dumps (PyBool b)) + length rest < n"
    from s [OF this] obtain m where "n = Suc m" by blast
    then show "scan_once n (py_json_dumps (PyBool b) @ rest) = Some (Inr (PyBool b, rest))"
      using scan_once_literals(1,2) [of m rest] by (cases b) simp_all
  qed
  show "rt_node PyNone"
    unfolding rt_node_def
  proof (intro allI impI)
    fix n and rest :: string
    assume "length (py_json_dumps PyNone) + length rest < n"
    from s [OF this] obtain m where "n = Suc m" by blast
    then show "scan_once n (py_json_dumps PyNone @ rest) = Some (Inr (PyNone, rest))"
      using scan_once_literals(3) [of m rest] by simp
  qed
qed

lemma rt_list_Cons:
  assumes x: "rt_node x" and xs: "xs \<noteq> [] \<Longrightarrow> rt_list xs"
  shows "rt_list (x # xs)"
  unfolding rt_list_def
proof (intro allI impI)
  fix n and rest :: string and vals
  assume len: "length (dumps_list (x # xs)) + 1 + length rest < n"
  then obtain m where n: "n = Suc m" by (cases n) auto
  define rest1 where "rest1 = (if xs = [] then [] else '', '' @ dumps_list xs) @ CHR '']'' # rest"
  have s: "dumps_list (x # xs) @ CHR '']'' # rest = py_json_dumps x @ rest1"
    by (simp add: rest1_def)
  have f: "follow_ok rest1" by (simp add: rest1_def)
  have l: "length (py_json_dumps x) + length rest1 < Suc m"
    using len n by (simp add: rest1_def)
  from x f l have v: "scan_once (Suc m) (py_json_dumps x @ rest1) = Some (Inr (x, rest1))"
    unfolding rt_node_def by blast
  have sk: "skip_ws rest1 = rest1" using f by (rule follow_ok_skip_ws)
  show "parse_array n (dumps_list (x # xs) @ CHR '']'' # rest) vals =
          Some (Inr (PyList (vals @ x # xs), rest))"
  proof (cases "xs = []")
    case True
    then have "rest1 = CHR '']'' # rest" by (simp add: rest1_def)
    with v sk True show ?thesis unfolding s n by simp
  next
    case False
    then have r1: "rest1 = CHR '','' # CHR '' '' # dumps_list xs @ CHR '']'' # rest"
      by (simp add: rest1_def)
    have "length (dumps_list xs) + 1 + length rest < m"
      using len n False by simp
    with xs [OF False]
    have "parse_array m (dumps_list xs @ CHR '']'' # rest) (vals @ [x]) =
        Some (Inr (PyList ((vals @ [x]) @ xs), rest))"
      unfolding rt_list_def by blast
    moreover have "skip_ws (CHR '' '' # dumps_list xs @ CHR '']'' # rest) =
        dumps_list xs @ CHR '']'' # rest"
      using False by (rule skip_ws_space_dumps_list)
    ultimately show ?thesis
      using v sk r1 unfolding s n by simp
  qed
qed

lemma rt_items_Cons:
  assumes v: "rt_node v" and kvs: "kvs \<noteq> [] \<Longrightarrow> rt_items kvs"
  shows "rt_items ((k, v) # kvs)"
  unfolding rt_items_def
proof (intro allI impI)
  fix n and rest :: string and pairs
  assume len: "length (dumps_items ((k, v) # kvs)) + 1 + length rest < n"
  then obtain m where n: "n = Suc m" by (cases n) auto
  define rest1 where "rest1 = (if kvs = [] then [] else '', '' @ dumps_items kvs) @ CHR ''}'' # rest"
  define key where "key = tl (encode_basestring_ascii k)"
  have enc: "encode_basestring_ascii k = dq # key"
    using encode_basestring_ascii_Cons [of k] by (simp add: key_def)
  have s: "tl (dumps_items ((k, v) # kvs)) @ CHR ''}'' # rest =
      key @ (CHR '':'' # CHR '' '' # py_json_dumps v @ rest1)"
    by (simp add: rest1_def enc)
  have f: "follow_ok rest1" by (simp add: rest1_def)
  have sk: "skip_ws rest1 = rest1" using f by (rule follow_ok_skip_ws)
  have l: "length (py_json_dumps v) + length rest1 < m"
    using len n by (simp add: rest1_def enc)
  from v f l have sv: "scan_once m (py_json_dumps v @ rest1) = Some (Inr (v, rest1))"
    unfolding rt_node_def by blast
  have k: "scanstring (key @ (CHR '':'' # CHR '' '' # py_json_dumps v @ rest1)) =
      Inr (k, CHR '':'' # CHR '' '' # py_json_dumps v @ rest1)"
    unfolding key_def by (rule scanstring_encode)
  have c: "skip_ws (CHR '':'' # CHR '' '' # py_json_dumps v @ rest1) =
      CHR '':'' # CHR '' '' # py_json_dumps v @ rest1"
    by (simp add: skip_ws_Cons is_ws_def)
  have sp: "skip_ws (CHR '' '' # py_json_dumps v @ rest1) = py_json_dumps v @ rest1"
    by (rule skip_ws_space_dumps)
  show "parse_object n (tl (dumps_items ((k, v) # kvs)) @ CHR ''}'' # rest) pairs =
          Some (Inr (PyDict (dict_of_pairs (pairs @ (k, v) # kvs)), rest))"
  proof (cases "kvs = []")
    case True
    then have "rest1 = CHR ''}'' # rest" by (simp add: rest1_def)
    with k c sp sv sk True show ?thesis unfolding s n by simp
  next
    case False
    from dumps_items_first [OF False] obtain r where r: "dumps_items kvs = dq # r"
      and tl: "tl (dumps_items kvs) = r" by (metis list.sel(3))
    from False r have r1: "rest1 = CHR '','' # CHR '' '' # dq # r @ CHR ''}'' # rest"
      by (simp add: rest1_def)
    have "length (dumps_items kvs) + 1 + length rest < m"
      using len n False by (simp add: enc)
    with kvs [OF False] tl
    have "parse_object m (r @ CHR ''}'' # rest) (pairs @ [(k, v)]) =
        Some (Inr (PyDict (dict_of_pairs ((pairs @ [(k, v)]) @ kvs)), rest))"
      unfolding rt_items_def by blast
    moreover have "skip_ws (CHR '' '' # dq # r @ CHR ''}'' # rest) = dq # r @ CHR ''}'' # rest"
      by (simp add: skip_ws_Cons is_ws_def dq_def)
    ultimately show ?thesis
      using k c sp sv sk r1 unfolding s n by simp
  qed
qed

lemma roundtrip_all:
  "(wf_node t \<longrightarrow> rt_node t) \<and>
   (wf_list xs \<longrightarrow> xs \<noteq> [] \<longrightarrow> rt_list xs) \<and>
   (wf_item kv \<longrightarrow> rt_node (snd kv)) \<and>
   (wf_items kvs \<longrightarrow> kvs \<noteq> [] \<longrightarrow> rt_items kvs)"
proof (rule wf_node_wf_items_wf_item_wf_list.induct
    [where ?P1.0 = "\<lambda>t. wf_node t \<longrightarrow> rt_node t"
      and ?P2.0 = "\<lambda>xs. wf_list xs \<longrightarrow> xs \<noteq> [] \<longrightarrow> rt_list xs"
      and ?P3.0 = "\<lambda>kv. wf_item kv \<longrightarrow> rt_node (snd kv)"
      and ?P4.0 = "\<lambda>kvs. wf_items kvs \<longrightarrow> kvs \<noteq> [] \<longrightarrow> rt_items kvs"], goal_cases)
  case (1 kvs)
  then show ?case using rt_node_PyDict [of kvs] by simp
next
  case (2 xs)
  then show ?case using rt_node_PyList [of xs] by simp
next
  case (8 x xs)
  then show ?case using rt_list_Cons [of x xs] by simp
next
  case (11 kv kvs)
  obtain k v where "kv = (k, v)" by (cases kv)
  with 11 show ?case using rt_items_Cons [of v kvs k] by simp
qed (simp_all add: rt_node_scalars)

lemma json_roundtrip: "wf_node t \<Longrightarrow> py_json_loads (py_json_dumps t) = Inr t"
proof -
  assume "wf_node t"
  with roundtrip_all [of t] have "rt_node t" by simp
  then have "scan_once (Suc (length (py_json_dumps t))) (py_json_dumps t @ []) = Some (Inr (t, []))"
    unfolding rt_node_def by (metis add.right_neutral follow_ok_simps(1) lessI list.size(3))
  moreover from dumps_first [of t] have "skip_ws (py_json_dumps t) = py_json_dumps t"
    by (auto simp: skip_ws_Cons)
  ultimately show ?thesis
    by (simp add: py_json_loads_def decode_def skip_ws_def)
qed

section \<open>The transformer\<close>

lemma first_failure_Nil [simp]: "first_failure L region [] = None"
  by (simp add: first_failure_def)

lemma first_failure_append:
  "first_failure L region (xs @ ys) =
     (case first_failure L region xs of None \<Rightarrow> first_failure L region ys | Some e \<Rightarrow> Some e)"
  by (induction xs) (auto simp: first_failure_def split: option.splits)

lemma first_failure_single:
  "first_failure L region [n] =
     (case resolve_referenced_resource L n region of Inl e \<Rightarrow> Some e | Inr v \<Rightarrow> None)"
  by (auto simp: first_failure_def split: sum.splits)

lemma is_deferred_iff:
  "is_deferred (PyDict kvs) \<longleftrightarrow> length kvs = 1 \<and> is_aws_fn (fst (hd kvs))"
proof
  assume "is_deferred (PyDict kvs)"
  then show "length kvs = 1 \<and> is_aws_fn (fst (hd kvs))"
    by (auto simp: is_deferred_def)
next
  assume a: "length kvs = 1 \<and> is_aws_fn (fst (hd kvs))"
  then obtain kv where "kvs = [kv]" by (cases kvs) auto
  with a show "is_deferred (PyDict kvs)"
    by (cases kv) (auto simp: is_deferred_def)
qed

lemma transform_PyDict:
  "transform L region (PyDict kvs) =
     (if has_stack_output kvs then resolve_referenced_resource L (PyDict kvs) region
      else if is_deferred (PyDict kvs)
      then Inr (PyStr (''{{ '' @ json_dumps L (PyDict kvs) @ '' }}''))
      else (case transform_items L region kvs of
              Inl e \<Rightarrow> Inl e
            | Inr kvs' \<Rightarrow> Inr (PyDict kvs')))"
  by (cases kvs) (simp_all add: has_stack_output_def is_deferred_iff)

lemma has_stack_output_cong:
  "map fst kvs' = map fst kvs \<Longrightarrow> has_stack_output kvs' = has_stack_output kvs"
  by (simp add: has_stack_output_def)

lemma visited_PyDict:
  "visited_lookups (PyDict kvs) =
     (if has_stack_output kvs then [PyDict kvs]
      else if is_deferred (PyDict kvs) then []
      else visited_items kvs)"
  by (simp add: is_deferred_iff)

declare transform.simps(1) [simp del] visited_lookups.simps(1) [simp del]

lemma transform_fails_all:
  "(case first_failure L region (visited_lookups t) of
      None \<Rightarrow> \<not> isl (transform L region t) | Some e \<Rightarrow> transform L region t = Inl e) \<and>
   (case first_failure L region (visited_list xs) of
      None \<Rightarrow> \<not> isl (transform_list L region xs)
    | Some e \<Rightarrow> transform_list L region xs = Inl e) \<and>
   (case first_failure L region (visited_item kv) of
      None \<Rightarrow> \<not> isl (transform_item L region kv)
    | Some e \<Rightarrow> transform_item L region kv = Inl e) \<and>
   (case first_failure L region (visited_items kvs) of
      None \<Rightarrow> \<not> isl (transform_items L region kvs)
    | Some e \<Rightarrow> transform_items L region kvs = Inl e)"
proof (rule transform_transform_items_transform_item_transform_list.induct
    [where ?P1.0 = "\<lambda>t. case first_failure L region (visited_lookups t) of
        None \<Rightarrow> \<not> isl (transform L region t) | Some e \<Rightarrow> transform L region t = Inl e"
      and ?P2.0 = "\<lambda>xs. case first_failure L region (visited_list xs) of
        None \<Rightarrow> \<not> isl (transform_list L region xs)
      | Some e \<Rightarrow> transform_list L region xs = Inl e"
      and ?P3.0 = "\<lambda>kv. case first_failure L region (visited_item kv) of
        None \<Rightarrow> \<not> isl (transform_item L region kv)
      | Some e \<Rightarrow> transform_item L region kv = Inl e"
      and ?P4.0 = "\<lambda>kvs. case first_failure L region (visited_items kvs) of
        None \<Rightarrow> \<not> isl (transform_items L region kvs)
      | Some e \<Rightarrow> transform_items L region kvs = Inl e"], goal_cases)
  case (1 kvs)
  consider (lookup) "has_stack_output kvs"
    | (deferred) "\<not> has_stack_output kvs" "is_deferred (PyDict kvs)"
    | (plain) "\<not> has_stack_output kvs" "\<not> is_deferred (PyDict kvs)" by blast
  then show ?case
  proof cases
    case lookup
    then show ?thesis
      by (cases "resolve_referenced_resource L (PyDict kvs) region")
        (simp_all add: transform_PyDict visited_PyDict first_failure_single)
  next
    case deferred
    then show ?thesis by (simp add: transform_PyDict visited_PyDict)
  next
    case plain
    with 1 show ?thesis
      by (cases "transform_items L region kvs")
        (simp_all add: transform_PyDict visited_PyDict split: option.splits)
  qed
next
  case (2 x)
  then show ?case by (auto split: option.splits sum.splits)
next
  case (8 x1 x2)
  then show ?case
    by (auto simp: first_failure_append split: option.splits sum.splits)
next
  case (9 x1 x2)
  then show ?case by (auto split: option.splits sum.splits)
next
  case (11 x1 x2)
  then show ?case
    by (auto simp: first_failure_append split: option.splits sum.splits)
qed simp_all


lemma transform_lookup_free_all:
  assumes res: "\<forall>n v. resolve_referenced_resource L n region = Inr v \<longrightarrow> is_scalar v"
  shows
  "(\<forall>t'. transform L region t = Inr t' \<longrightarrow> lookup_free t') \<and>
   (\<forall>ys. transform_list L region xs = Inr ys \<longrightarrow> lookup_free_list ys) \<and>
   (\<forall>kv'. transform_item L region kv = Inr kv' \<longrightarrow> lookup_free_item kv') \<and>
   (\<forall>kvs'. transform_items L region kvs = Inr kvs' \<longrightarrow> lookup_free_items kvs' \<and>
      map fst kvs' = map fst kvs)"
proof (rule transform_transform_items_transform_item_transform_list.induct
    [where ?P1.0 = "\<lambda>t. \<forall>t'. transform L region t = Inr t' \<longrightarrow> lookup_free t'"
      and ?P2.0 = "\<lambda>xs. \<forall>ys. transform_list L region xs = Inr ys \<longrightarrow> lookup_free_list ys"
      and ?P3.0 = "\<lambda>kv. \<forall>kv'. transform_item L region kv = Inr kv' \<longrightarrow> lookup_free_item kv'"
      and ?P4.0 = "\<lambda>kvs. \<forall>kvs'. transform_items L region kvs = Inr kvs' \<longrightarrow>
        lookup_free_items kvs' \<and> map fst kvs' = map fst kvs"], goal_cases)
  case (1 kvs)
  show ?case
  proof (intro allI impI)
    fix t'
    assume t: "transform L region (PyDict kvs) = Inr t'"
    show "lookup_free t'"
    proof (cases "has_stack_output kvs")
      case True
      with t have "resolve_referenced_resource L (PyDict kvs) region = Inr t'"
        by (simp add: transform_PyDict)
      with res have "is_scalar t'" by blast
      then show ?thesis by (cases t') simp_all
    next
      case False
      show ?thesis
      proof (cases "is_deferred (PyDict kvs)")
        case True
        with False t show ?thesis by (auto simp: transform_PyDict)
      next
        case nd: False
        with False t obtain kvs' where k: "transform_items L region kvs = Inr kvs'"
          and t': "t' = PyDict kvs'"
          by (auto simp: transform_PyDict split: sum.splits)
        from 1 k have "lookup_free_items kvs'" "map fst kvs' = map fst kvs" by auto
        with False t' has_stack_output_cong [of kvs' kvs] show ?thesis by simp
      qed
    qed
  qed
next
  case (2 xs)
  then show ?case by (cases "transform_list L region xs") simp_all
next
  case (8 x xs)
  then show ?case
    by (cases "transform L region x"; cases "transform_list L region xs") auto
next
  case (9 k v)
  then show ?case by (cases "transform L region v") auto
next
  case (11 kv kvs)
  show ?case
  proof (intro allI impI)
    fix kvs'
    assume a: "transform_items L region (kv # kvs) = Inr kvs'"
    then obtain kv' ks where kv': "transform_item L region kv = Inr kv'"
      and ks: "transform_items L region kvs = Inr ks" and kvs': "kvs' = kv' # ks"
      by (cases "transform_item L region kv"; cases "transform_items L region kvs") auto
    from kv' have "fst kv' = fst kv"
      by (cases kv; cases "transform L region (snd kv)") auto
    moreover from 11 kv' ks have "lookup_free_item kv'" "lookup_free_items ks"
      "map fst ks = map fst kvs" by blast+
    ultimately show "lookup_free_items kvs' \<and> map fst kvs' = map fst (kv # kvs)"
      using kvs' by simp
  qed
qed simp_all

lemma transform_identity_all:
  "(expression_free t \<longrightarrow> transform L region t = Inr t) \<and>
   (expression_free_list xs \<longrightarrow> transform_list L region xs = Inr xs) \<and>
   (expression_free_item kv \<longrightarrow> transform_item L region kv = Inr kv) \<and>
   (expression_free_items kvs \<longrightarrow> transform_items L region kvs = Inr kvs)"
proof (rule transform_transform_items_transform_item_transform_list.induct
    [where ?P1.0 = "\<lambda>t. expression_free t \<longrightarrow> transform L region t = Inr t"
      and ?P2.0 = "\<lambda>xs. expression_free_list xs \<longrightarrow> transform_list L region xs = Inr xs"
      and ?P3.0 = "\<lambda>kv. expression_free_item kv \<longrightarrow> transform_item L region kv = Inr kv"
      and ?P4.0 = "\<lambda>kvs. expression_free_items kvs \<longrightarrow> transform_items L region kvs = Inr kvs"],
    goal_cases)
  case (1 kvs)
  then show ?case
    by (simp add: transform_PyDict)
qed simp_all

lemma transform_cong_all:
  assumes d: "json_dumps L1 = json_dumps L2"
  shows
  "((\<forall>n\<in>set (visited_lookups t).
       resolve_referenced_resource L1 n region = resolve_referenced_resource L2 n region) \<longrightarrow>
     transform L1 region t = transform L2 region t) \<and>
   ((\<forall>n\<in>set (visited_list xs).
       resolve_referenced_resource L1 n region = resolve_referenced_resource L2 n region) \<longrightarrow>
     transform_list L1 region xs = transform_list L2 region xs) \<and>
   ((\<forall>n\<in>set (visited_item kv).
       resolve_referenced_resource L1 n region = resolve_referenced_resource L2 n region) \<longrightarrow>
     transform_item L1 region kv = transform_item L2 region kv) \<and>
   ((\<forall>n\<in>set (visited_items kvs).
       resolve_referenced_resource L1 n region = resolve_referenced_resource L2 n region) \<longrightarrow>
     transform_items L1 region kvs = transform_items L2 region kvs)"
proof (rule transform_transform_items_transform_item_transform_list.induct
    [where ?P1.0 = "\<lambda>t. (\<forall>n\<in>set (visited_lookups t).
       resolve_referenced_resource L1 n region = resolve_referenced_resource L2 n region) \<longrightarrow>
       transform L1 region t = transform L2 region t"
      and ?P2.0 = "\<lambda>xs. (\<forall>n\<in>set (visited_list xs).
       resolve_referenced_resource L1 n region = resolve_referenced_resource L2 n region) \<longrightarrow>
       transform_list L1 region xs = transform_list L2 region xs"
      and ?P3.0 = "\<lambda>kv. (\<forall>n\<in>set (visited_item kv).
       resolve_referenced_resource L1 n region = resolve_referenced_resource L2 n region) \<longrightarrow>
       transform_item L1 region kv = transform_item L2 region kv"
      and ?P4.0 = "\<lambda>kvs. (\<forall>n\<in>set (visited_items kvs).
       resolve_referenced_resource L1 n region = resolve_referenced_resource L2 n region) \<longrightarrow>
       transform_items L1 region kvs = transform_items L2 region kvs"], goal_cases)
  case (1 kvs)
  then show ?case using d by (simp add: transform_PyDict visited_PyDict)
next
  case (2 xs)
  then show ?case by simp
next
  case (8 x xs)
  then show ?case by (simp split: sum.splits)
next
  case (9 k v)
  then show ?case by simp
next
  case (11 kv kvs)
  then show ?case by (simp split: sum.splits)
qed simp_all

section \<open>The shape of the result of the splitter\<close>

lemma split_loop_Inr:
  "split_loop L ms = Inr parts \<Longrightarrow>
     length parts = 2 * length ms \<and>
     (\<forall>i<length ms. parts ! (2 * i) = PyStr (fst (ms ! i)) \<and>
        json_loads L (snd (ms ! i)) = Inr (parts ! (2 * i + 1)))"
proof (induction ms arbitrary: parts)
  case Nil
  then show ?case by simp
next
  case (Cons m ms)
  obtain lit body where m: "m = (lit, body)" by (cases m)
  from Cons.prems m obtain v ps where
    v: "json_loads L body = Inr v" and ps: "split_loop L ms = Inr ps"
    and parts: "parts = PyStr lit # v # ps"
    by (auto split: sum.splits)
  from Cons.IH [OF ps] have len: "length ps = 2 * length ms"
    and nth: "\<And>i. i < length ms \<Longrightarrow> ps ! (2 * i) = PyStr (fst (ms ! i)) \<and>
        json_loads L (snd (ms ! i)) = Inr (ps ! (2 * i + 1))"
    by auto
  have "parts ! (2 * i) = PyStr (fst ((m # ms) ! i)) \<and>
        json_loads L (snd ((m # ms) ! i)) = Inr (parts ! (2 * i + 1))"
    if "i < length (m # ms)" for i
  proof (cases i)
    case 0
    with m v parts show ?thesis by simp
  next
    case (Suc j)
    with that have "j < length ms" by simp
    from nth [OF this] Suc parts show ?thesis by simp
  qed
  with len parts show ?case by simp
qed

lemma split_loop_total:
  "(\<forall>m\<in>set ms. \<not> isl (json_loads L (snd m))) \<Longrightarrow> \<exists>parts. split_loop L ms = Inr parts"
proof (induction ms)
  case Nil
  then show ?case by simp
next
  case (Cons m ms)
  obtain lit body where m: "m = (lit, body)" by (cases m)
  from Cons.prems m obtain v where "json_loads L body = Inr v"
    by (cases "json_loads L body") auto
  moreover from Cons obtain ps where "split_loop L ms = Inr ps" by auto
  ultimately show ?case using m by simp
qed

lemma split_loop_Inl:
  "split_loop L ms = Inl e \<Longrightarrow> \<exists>m\<in>set ms. json_loads L (snd m) = Inl e"
  by (induction ms) (auto split: sum.splits)

text \<open>
  C8. When the pattern matches nowhere, \<open>split\<close> returns the text alone and the pipeline
  returns it as the string it is. When it matches, every result of \<open>split\<close> has an odd
  number of elements, three at least; the elements at the even positions, the first and
  the last among them, are literal texts, and the element at an odd position is what
  \<^verbatim>\<open>json.loads\<close> made of group 2 of the match, with a literal text on both sides; the
  pipeline wraps the list in \<^verbatim>\<open>Fn::Join\<close>. \<open>split\<close> returns whenever every group 2
  decodes, and fails only with the error of a group 2 that does not.
\<close>

theorem split_shape:
  "(fst (finditer text) = [] \<longrightarrow>
      split L text = Inr [PyStr text] \<and> join_parts [PyStr text] = PyStr text) \<and>
   (fst (finditer text) \<noteq> [] \<longrightarrow>
      (\<forall>parts. split L text = Inr parts \<longrightarrow>
         odd (length parts) \<and> 3 \<le> length parts \<and>
         is_str (hd parts) \<and> is_str (last parts) \<and>
         (\<forall>i<length parts. even i \<longrightarrow> is_str (parts ! i)) \<and>
         (\<forall>i<length parts. odd i \<longrightarrow>
            is_str (parts ! (i - 1)) \<and> i + 1 < length parts \<and> is_str (parts ! (i + 1)) \<and>
            json_loads L (snd (fst (finditer text) ! (i div 2))) = Inr (parts ! i)) \<and>
         join_parts parts = PyDict [(''Fn::Join'', PyList [PyStr [], PyList parts])])) \<and>
   ((\<forall>m\<in>set (fst (finditer text)). \<not> isl (json_loads L (snd m))) \<longrightarrow>
      (\<exists>parts. split L text = Inr parts)) \<and>
   (\<forall>e. split L text = Inl e \<longrightarrow>
      (\<exists>m\<in>set (fst (finditer text)). json_loads L (snd m) = Inl e))"
proof -
  obtain ms tail where ft: "finditer text = (ms, tail)" by (cases "finditer text")
  have notail: "tail = text" if "ms = []"
    using that ft by (auto simp: finditer.simps [of "text"] split: option.splits prod.splits)
  have a: "split L text = Inr [PyStr text] \<and> join_parts [PyStr text] = PyStr text" if "ms = []"
    using that notail ft by (simp add: split_def join_parts_def)
  have b: "odd (length parts) \<and> 3 \<le> length parts \<and>
         is_str (hd parts) \<and> is_str (last parts) \<and>
         (\<forall>i<length parts. even i \<longrightarrow> is_str (parts ! i)) \<and>
         (\<forall>i<length parts. odd i \<longrightarrow>
            is_str (parts ! (i - 1)) \<and> i + 1 < length parts \<and> is_str (parts ! (i + 1)) \<and>
            json_loads L (snd (ms ! (i div 2))) = Inr (parts ! i)) \<and>
         join_parts parts = PyDict [(''Fn::Join'', PyList [PyStr [], PyList parts])]"
    if ne: "ms \<noteq> []" and sp: "split L text = Inr parts" for parts
  proof -
    from sp ft obtain ps where ps: "split_loop L ms = Inr ps" and parts: "parts = ps @ [PyStr tail]"
      by (auto simp: split_def split: sum.splits)
    from split_loop_Inr [OF ps] have len: "length ps = 2 * length ms"
      and nth: "\<And>i. i < length ms \<Longrightarrow> ps ! (2 * i) = PyStr (fst (ms ! i)) \<and>
        json_loads L (snd (ms ! i)) = Inr (ps ! (2 * i + 1))"
      by auto
    from ne have lms: "0 < length ms" by simp
    have plen: "length parts = 2 * length ms + 1" using len parts by simp
    have ev: "is_str (parts ! i)" if "i < length parts" "even i" for i
    proof (cases "i < length ps")
      case True
      from that obtain j where j: "i = 2 * j" by (auto elim: evenE)
      with True len have "j < length ms" by simp
      from nth [OF this] j True parts show ?thesis by (simp add: nth_append)
    next
      case False
      with that plen len have "i = length ps" by simp
      with parts show ?thesis by simp
    qed
    have od: "is_str (parts ! (i - 1)) \<and> i + 1 < length parts \<and> is_str (parts ! (i + 1)) \<and>
            json_loads L (snd (ms ! (i div 2))) = Inr (parts ! i)"
      if "i < length parts" "odd i" for i
    proof -
      from that obtain j where j: "i = 2 * j + 1" by (auto elim: oddE)
      with that plen have jl: "j < length ms" by simp
      have i1: "i + 1 < length parts" using j jl plen by simp
      have "is_str (parts ! (i - 1))" using ev [of "i - 1"] that by simp
      moreover have "is_str (parts ! (i + 1))" using ev [of "i + 1"] i1 that by simp
      moreover have "json_loads L (snd (ms ! (i div 2))) = Inr (parts ! i)"
        using nth [OF jl] j jl len parts by (simp add: nth_append)
      ultimately show ?thesis using i1 by simp
    qed
    have "is_str (hd parts)" using ev [of 0] plen by (cases parts) auto
    moreover have "is_str (last parts)" using parts by simp
    moreover have "join_parts parts = PyDict [(''Fn::Join'', PyList [PyStr [], PyList parts])]"
      using plen lms by (simp add: join_parts_def)
    moreover have "odd (length parts)" "3 \<le> length parts" using plen lms by (simp_all add: Suc_le_eq)
    ultimately show ?thesis using ev od by blast
  qed
  have c: "\<exists>parts. split L text = Inr parts" if "\<forall>m\<in>set ms. \<not> isl (json_loads L (snd m))"
    using split_loop_total [OF that] ft by (auto simp: split_def)
  have d: "\<exists>m\<in>set ms. json_loads L (snd m) = Inl e" if "split L text = Inl e" for e
    using that ft split_loop_Inl [of L ms e] by (auto simp: split_def split: sum.splits)
  from a b c d ft show ?thesis by simp
qed

theorem split_shape_witness:
  "fst (finditer ''abc'') = [] \<and>
   split (python_libs stack_not_found py_yaml_dump) ''abc'' = Inr [PyStr ''abc''] \<and>
   join_parts [PyStr ''abc''] = PyStr ''abc'' \<and>
   fst (finditer (''x: '' @ [CHR 0x27] @ ''{{ {'' @ [dq] @ ''Ref'' @ [dq] @ '': '' @ [dq] @ ''A''
      @ [dq] @ ''} }}'' @ [CHR 0x27, CHR 0x0A])) \<noteq> [] \<and>
   split (python_libs stack_not_found py_yaml_dump)
     (''x: '' @ [CHR 0x27] @ ''{{ {'' @ [dq] @ ''Ref'' @ [dq] @ '': '' @ [dq] @ ''A''
      @ [dq] @ ''} }}'' @ [CHR 0x27, CHR 0x0A])
     = Inr [PyStr ''x: '', PyDict [(''Ref'', PyStr ''A'')], PyStr [CHR 0x0A]] \<and>
   odd (length [PyStr ''x: '', PyDict [(''Ref'', PyStr ''A'')], PyStr [CHR 0x0A]]) \<and>
   is_str (hd [PyStr ''x: '', PyDict [(''Ref'', PyStr ''A'')], PyStr [CHR 0x0A]]) \<and>
   is_str (last [PyStr ''x: '', PyDict [(''Ref'', PyStr ''A'')], PyStr [CHR 0x0A]]) \<and>
   join_parts [PyStr ''x: '', PyDict [(''Ref'', PyStr ''A'')], PyStr [CHR 0x0A]] =
     PyDict [(''Fn::Join'', PyList [PyStr [],
       PyList [PyStr ''x: '', PyDict [(''Ref'', PyStr ''A'')], PyStr [CHR 0x0A]]])]"
proof -
  let ?L = "python_libs stack_not_found py_yaml_dump"
  let ?t = "''x: '' @ [CHR 0x27] @ ''{{ {'' @ [dq] @ ''Ref'' @ [dq] @ '': '' @ [dq] @ ''A''
      @ [dq] @ ''} }}'' @ [CHR 0x27, CHR 0x0A]"
  have a: "fst (finditer ''abc'') = []" by code_simp
  have b: "fst (finditer ?t) \<noteq> []" by code_simp
  have c: "split ?L ?t = Inr [PyStr ''x: '', PyDict [(''Ref'', PyStr ''A'')], PyStr [CHR 0x0A]]"
    by code_simp
  from split_shape [of "''abc''" ?L] a
  have "split ?L ''abc'' = Inr [PyStr ''abc''] \<and> join_parts [PyStr ''abc''] = PyStr ''abc''"
    by blast
  moreover from split_shape [of ?t ?L] b c
  have "odd (length [PyStr ''x: '', PyDict [(''Ref'', PyStr ''A'')], PyStr [CHR 0x0A]]) \<and>
    is_str (hd [PyStr ''x: '', PyDict [(''Ref'', PyStr ''A'')], PyStr [CHR 0x0A]]) \<and>
    is_str (last [PyStr ''x: '', PyDict [(''Ref'', PyStr ''A'')], PyStr [CHR 0x0A]]) \<and>
    join_parts [PyStr ''x: '', PyDict [(''Ref'', PyStr ''A'')], PyStr [CHR 0x0A]] =
     PyDict [(''Fn::Join'', PyList [PyStr [],
       PyList [PyStr ''x: '', PyDict [(''Ref'', PyStr ''A'')], PyStr [CHR 0x0A]]])]"
    by blast
  ultimately show ?thesis using a b c by blast
qed

end
